theory Spec2Isabelle
  imports Main
begin

section \<open>Parsed trees of ckipnlp: the container of \<open>ckipnlp/container/util/parsed_tree.py\<close>\<close>

text \<open>
  Python strings are modelled as \<open>string\<close>, the UTF-8 encoding of the text. The
  code only ever compares against the ASCII characters \<open>( ) | : #\<close>, the prefixes
  \<open>V\<close> and \<open>N\<close> and the separator \<open>] \<close>; no byte of a multi-byte UTF-8
  sequence is an ASCII byte, so scanning bytes and scanning code points agree.
  An attribute that is \<open>None\<close> in Python is \<open>None\<close> of an option type, every
  exception that the code can raise is a constructor of \<open>error\<close>, and a function
  that can raise returns \<open>error + 'a\<close>.
\<close>

datatype error =
    TypeError
  | IndexError
  | AttributeError
  | NodeIDAbsentError
  | OSError
  | DuplicatedNodeIdError
  | MultipleRootError

subsection \<open>Sequencing of computations that may raise\<close>

definition bind :: "error + 'a \<Rightarrow> ('a \<Rightarrow> error + 'b) \<Rightarrow> error + 'b" where
  "bind m f = (case m of Inl e \<Rightarrow> Inl e | Inr x \<Rightarrow> f x)"

text \<open>\<open>yield from\<close> over a list of generators: the items in order, or the first error.\<close>

fun yield_from :: "(error + 'a list) list \<Rightarrow> error + 'a list" where
  "yield_from [] = Inr []"
| "yield_from (m # ms) =
     (case m of
        Inl e \<Rightarrow> Inl e
      | Inr xs \<Rightarrow> (case yield_from ms of Inl e \<Rightarrow> Inl e | Inr ys \<Rightarrow> Inr (xs @ ys)))"

subsection \<open>String operations of Python used by the code\<close>

text \<open>\<open>sep.join(parts)\<close>\<close>

fun join :: "string \<Rightarrow> string list \<Rightarrow> string" where
  "join sep [] = []"
| "join sep [x] = x"
| "join sep (x # y # ys) = x @ sep @ join sep (y # ys)"

text \<open>\<open>s.split(c)\<close> for a one-character separator, no limit: never the empty list.\<close>

primrec split_on :: "char \<Rightarrow> string \<Rightarrow> string list" where
  "split_on c [] = [[]]"
| "split_on c (x # xs) =
     (let r = split_on c xs in if x = c then [] # r else (x # hd r) # tl r)"

text \<open>\<open>s.startswith(p)\<close>\<close>

fun startswith :: "string \<Rightarrow> string \<Rightarrow> bool" where
  "startswith s [] = True"
| "startswith [] (p # ps) = False"
| "startswith (c # cs) (p # ps) = (c = p \<and> startswith cs ps)"

text \<open>\<open>sep in s\<close> for strings: \<open>sep\<close> occurs in \<open>s\<close> as a substring.\<close>

fun contains :: "string \<Rightarrow> string \<Rightarrow> bool" where
  "contains [] sep = (sep = [])"
| "contains (c # cs) sep = (startswith (c # cs) sep \<or> contains cs sep)"

text \<open>
  \<open>find_sep sep s\<close> is \<open>s.partition(sep)\<close> at the leftmost occurrence of a non-empty
  \<open>sep\<close>: the text before it and the text after it, or \<open>None\<close> when \<open>sep\<close> does
  not occur.
\<close>

fun find_sep :: "string \<Rightarrow> string \<Rightarrow> (string \<times> string) option" where
  "find_sep sep [] = (if sep = [] then Some ([], []) else None)"
| "find_sep sep (c # cs) =
     (if startswith (c # cs) sep then Some ([], drop (length sep) (c # cs))
      else (case find_sep sep cs of
              None \<Rightarrow> None
            | Some (a, b) \<Rightarrow> Some (c # a, b)))"

text \<open>\<open>s.split(sep, maxsplit)\<close>: at most \<open>maxsplit\<close> cuts, from the left.\<close>

fun split_max :: "string \<Rightarrow> nat \<Rightarrow> string \<Rightarrow> string list" where
  "split_max sep 0 s = [s]"
| "split_max sep (Suc k) s =
     (case find_sep sep s of
        None \<Rightarrow> [s]
      | Some (a, b) \<Rightarrow> a # split_max sep k b)"

text \<open>\<open>s.rstrip(c)\<close>: all trailing occurrences of the character are removed.\<close>

definition rstrip :: "char \<Rightarrow> string \<Rightarrow> string" where
  "rstrip c s = rev (dropWhile (\<lambda>x. x = c) (rev s))"

subsection \<open>ParsedNodeData\<close>

record node_data =
  role :: "string option"
  pos :: "string option"
  word :: "string option"

text \<open>
  \<open>cls(*fields)\<close> of the named tuple with three defaulted fields: up to three
  positional arguments, more raise \<open>TypeError\<close>.
\<close>

fun cls_positional :: "string list \<Rightarrow> error + node_data" where
  "cls_positional [] = Inr \<lparr>role = None, pos = None, word = None\<rparr>"
| "cls_positional [r] = Inr \<lparr>role = Some r, pos = None, word = None\<rparr>"
| "cls_positional [r, p] = Inr \<lparr>role = Some r, pos = Some p, word = None\<rparr>"
| "cls_positional [r, p, w] = Inr \<lparr>role = Some r, pos = Some p, word = Some w\<rparr>"
| "cls_positional (r # p # w # x # xs) = Inl TypeError"

definition ParsedNodeData_from_text :: "string \<Rightarrow> error + node_data" where
  "ParsedNodeData_from_text data =
     (if CHR '':'' \<in> set data then cls_positional (split_on CHR '':'' data)
      else Inr \<lparr>role = None, pos = Some data, word = None\<rparr>)"

text \<open>\<open>filter(None, self)\<close> keeps the fields that are neither \<open>None\<close> nor empty.\<close>

definition truthy :: "string option list \<Rightarrow> string list" where
  "truthy fs = concat (map (\<lambda>f. case f of None \<Rightarrow> [] | Some s \<Rightarrow> (if s = [] then [] else [s])) fs)"

definition ParsedNodeData_to_text :: "node_data \<Rightarrow> string" where
  "ParsedNodeData_to_text d = join '':'' (truthy [role d, pos d, word d])"

text \<open>The dict \<open>{role, pos, word}\<close> of a node's data; \<open>None\<close> is the null entry.\<close>

record data_dict =
  dd_role :: "string option"
  dd_pos :: "string option"
  dd_word :: "string option"

text \<open>
  Modelled from the spec: \<open>ParsedNodeData.from_dict\<close> is inherited from the base
  class of \<open>ckipnlp/container/base.py\<close>, which is not among the sources. The spec
  (4.1): exact field-name mapping \<open>{role, pos, word}\<close>, a null entry being an unset
  field.
\<close>

definition ParsedNodeData_from_dict :: "data_dict \<Rightarrow> node_data" where
  "ParsedNodeData_from_dict dd = \<lparr>role = dd_role dd, pos = dd_pos dd, word = dd_word dd\<rparr>"

text \<open>
  Modelled from the spec: \<open>ParsedNodeData.to_dict\<close> is inherited from the same base
  class. The spec (4.1): exact field-name mapping \<open>{role, pos, word}\<close>; unset fields
  map to an explicit null marker and are not omitted.
\<close>

definition ParsedNodeData_to_dict :: "node_data \<Rightarrow> data_dict" where
  "ParsedNodeData_to_dict d = \<lparr>dd_role = role d, dd_pos = pos d, dd_word = word d\<rparr>"

subsection \<open>The tree of the treelib library\<close>

text \<open>
  \<open>ParsedTree\<close> inherits its storage from treelib's \<open>Tree\<close>: a dictionary from
  identifiers to nodes, every node with the identifier of its parent and the list of
  the identifiers of its children in insertion order, and the identifier of the root
  (\<open>None\<close> for the empty tree). The code builds trees by \<open>create_node\<close> only, which
  keeps this structure a single rooted ordered tree, so a non-empty tree is a value of
  \<open>ptree\<close> and a tree is a \<open>ptree option\<close>. A node object is the subtree at that
  node: \<open>node.identifier\<close> is \<open>ident node\<close>, with \<open>node.tag\<close>, \<open>node.data\<close>, and \<open>node.is_leaf()\<close>
  is \<open>children node = []\<close>.
\<close>

datatype ptree =
  Node (ident: int) (tag: string) (data: node_data) (children: "ptree list")

fun ids :: "ptree \<Rightarrow> int list" where
  "ids (Node i tg d cs) = i # concat (map ids cs)"

definition tree_ids :: "ptree option \<Rightarrow> int list" where
  "tree_ids t = (case t of None \<Rightarrow> [] | Some r \<Rightarrow> ids r)"

text \<open>All the nodes of a tree, in depth-first order.\<close>

fun subtrees :: "ptree \<Rightarrow> ptree list" where
  "subtrees (Node i tg d cs) = Node i tg d cs # concat (map subtrees cs)"

fun first_some :: "'a option list \<Rightarrow> 'a option" where
  "first_some [] = None"
| "first_some (None # xs) = first_some xs"
| "first_some (Some x # xs) = Some x"

text \<open>The node with a given identifier.\<close>

fun find_node :: "int \<Rightarrow> ptree \<Rightarrow> ptree option" where
  "find_node i (Node j tg d cs) =
     (if i = j then Some (Node j tg d cs) else first_some (map (find_node i) cs))"

text \<open>
  \<open>tree[nid]\<close>, where \<open>nid\<close> is \<open>None\<close> when the caller passed the root of an empty
  tree: treelib raises \<open>NodeIDAbsentError\<close> for an identifier that is not in the tree.
\<close>

definition get_node :: "ptree option \<Rightarrow> int option \<Rightarrow> error + ptree" where
  "get_node t nid =
     (case (t, nid) of
        (Some r, Some i) \<Rightarrow> (case find_node i r of None \<Rightarrow> Inl NodeIDAbsentError | Some n \<Rightarrow> Inr n)
      | _ \<Rightarrow> Inl NodeIDAbsentError)"

definition root :: "ptree option \<Rightarrow> int option" where
  "root t = map_option ident t"

text \<open>\<open>node_id = self.root if node_id is None else node_id\<close>\<close>

definition default_root :: "ptree option \<Rightarrow> int option \<Rightarrow> int option" where
  "default_root t nid = (case nid of None \<Rightarrow> root t | Some i \<Rightarrow> Some i)"

text \<open>
  The node whose children \<open>tree.children(nid)\<close> lists: treelib raises \<open>OSError\<close>
  when \<open>nid\<close> is \<open>None\<close> (the root of an empty tree) and \<open>NodeIDAbsentError\<close>
  when \<open>nid\<close> is not in the tree.
\<close>

definition children_node :: "ptree option \<Rightarrow> int option \<Rightarrow> error + ptree" where
  "children_node t nid = (case nid of None \<Rightarrow> Inl OSError | Some i \<Rightarrow> get_node t (Some i))"

lemma children_node_eq:
  "children_node t nid =
     (case get_node t nid of
        Inr r \<Rightarrow> Inr r
      | Inl e \<Rightarrow> (if nid = None then Inl OSError else Inl e))"
  by (cases nid) (auto simp: children_node_def get_node_def split: sum.splits option.splits)

text \<open>Appending a new last child to the node with identifier \<open>p\<close>.\<close>

fun add_child :: "int \<Rightarrow> ptree \<Rightarrow> ptree \<Rightarrow> ptree" where
  "add_child p new (Node i tg d cs) =
     (if i = p then Node i tg d (cs @ [new])
      else Node i tg d (map (add_child p new) cs))"

text \<open>
  \<open>tree.create_node(tag, identifier, parent, data)\<close> of treelib: a duplicate
  identifier raises \<open>DuplicatedNodeIdError\<close>; with \<open>parent=None\<close> the node becomes
  the root, and a second root raises \<open>MultipleRootError\<close>; a parent that is not in
  the tree raises \<open>NodeIDAbsentError\<close>; otherwise the node is appended to the
  children of its parent.
\<close>

definition create_node ::
  "string \<Rightarrow> int \<Rightarrow> int option \<Rightarrow> node_data \<Rightarrow> ptree option \<Rightarrow> error + ptree option" where
  "create_node tg i parent d t =
     (if i \<in> set (tree_ids t) then Inl DuplicatedNodeIdError
      else (case parent of
              None \<Rightarrow> (case t of None \<Rightarrow> Inr (Some (Node i tg d [])) | Some r \<Rightarrow> Inl MultipleRootError)
            | Some p \<Rightarrow>
                (case t of
                   None \<Rightarrow> Inl NodeIDAbsentError
                 | Some r \<Rightarrow>
                     (if p \<in> set (ids r) then Inr (Some (add_child p (Node i tg d []) r))
                      else Inl NodeIDAbsentError))))"

subsection \<open>ParsedTree: the text codec\<close>

definition normalize_text :: "string \<Rightarrow> string" where
  "normalize_text tree_text =
     (if CHR ''#'' \<in> set tree_text
      then rstrip CHR ''#'' (last (split_max ''] '' 2 tree_text))
      else tree_text)"

text \<open>
  The local variables of the scanning loop of \<open>from_text\<close>:
  \<open>(tree, node_id, node_queue, text, ending)\<close>. \<open>node_queue\<close> is a Python list used
  as a stack with its top at the end; its bottom entry \<open>None\<close> is the parent of the
  root.
\<close>

type_synonym scan_state = "ptree option \<times> int \<times> int option list \<times> string \<times> bool"

text \<open>\<open>node_queue[-1]\<close> and \<open>node_queue.pop()\<close> raise \<open>IndexError\<close> on the empty list.\<close>

definition peek :: "'a list \<Rightarrow> error + 'a" where
  "peek q = (if q = [] then Inl IndexError else Inr (last q))"

definition pop :: "'a list \<Rightarrow> error + 'a list" where
  "pop q = (if q = [] then Inl IndexError else Inr (butlast q))"

text \<open>
  The two statements that create a node from the buffer:
  \<open>node_data = from_text(text)\<close>, then
  \<open>tree.create_node(tag=text, identifier=node_id, parent=node_queue[-1], data=node_data)\<close>.
\<close>

definition flush :: "ptree option \<Rightarrow> int \<Rightarrow> int option list \<Rightarrow> string \<Rightarrow> error + ptree option" where
  "flush tree node_id node_queue text =
     bind (ParsedNodeData_from_text text) (\<lambda>node_data.
     bind (peek node_queue) (\<lambda>parent.
     create_node text node_id parent node_data tree))"

fun from_text_step :: "scan_state \<Rightarrow> char \<Rightarrow> error + scan_state" where
  "from_text_step (tree, node_id, node_queue, text, ending) char =
     (if char = CHR ''('' then
        bind (flush tree node_id node_queue text) (\<lambda>tree'.
        Inr (tree', node_id + 1, node_queue @ [Some node_id], [], ending))
      else if char = CHR '')'' then
        bind (if \<not> ending
              then bind (flush tree node_id node_queue text) (\<lambda>tree'. Inr (tree', node_id + 1))
              else Inr (tree, node_id)) (\<lambda>(tree', node_id').
        bind (pop node_queue) (\<lambda>node_queue'.
        Inr (tree', node_id', node_queue', [], True)))
      else if char = CHR ''|'' then
        bind (if \<not> ending
              then bind (flush tree node_id node_queue text) (\<lambda>tree'. Inr (tree', node_id + 1))
              else Inr (tree, node_id)) (\<lambda>(tree', node_id').
        Inr (tree', node_id', node_queue, [], True))
      else Inr (tree, node_id, node_queue, text @ [char], False))"

text \<open>The \<open>for char in data\<close> loop.\<close>

fun from_text_loop :: "scan_state \<Rightarrow> string \<Rightarrow> error + scan_state" where
  "from_text_loop st [] = Inr st"
| "from_text_loop st (char # rest) =
     (case from_text_step st char of
        Inl e \<Rightarrow> Inl e
      | Inr st' \<Rightarrow> from_text_loop st' rest)"

definition from_text :: "string \<Rightarrow> bool \<Rightarrow> error + ptree option" where
  "from_text text_in normalize_flag =
     (let text_in = (if normalize_flag then normalize_text text_in else text_in) in
      bind (from_text_loop (None, 0, [None], [], True) text_in) (\<lambda>(tree, _). Inr tree))"

fun to_text_node :: "ptree \<Rightarrow> string" where
  "to_text_node (Node i tg d cs) =
     (let tree_text = ParsedNodeData_to_text d;
          children_text = join ''|'' (map to_text_node cs)
      in if children_text \<noteq> [] then tree_text @ ''('' @ children_text @ '')'' else tree_text)"

definition to_text :: "ptree option \<Rightarrow> int option \<Rightarrow> error + string" where
  "to_text t node_id =
     bind (get_node t (default_root t node_id)) (\<lambda>node. Inr (to_text_node node))"

subsection \<open>ParsedTree: the dict codec\<close>

datatype tree_dict =
  TreeDict (d_id: int) (d_data: data_dict) (d_children: "tree_dict list")

text \<open>
  The \<open>while queue\<close> loop of \<open>from_dict\<close>: the queue holds pairs of a dict and
  the identifier of its parent; \<open>popleft\<close> takes the head of the list and
  \<open>append\<close> adds at its end.
\<close>

fun dict_nodes :: "tree_dict \<Rightarrow> nat" where
  "dict_nodes (TreeDict i d cs) = Suc (sum_list (map dict_nodes cs))"

function from_dict_loop ::
  "ptree option \<Rightarrow> (tree_dict \<times> int option) list \<Rightarrow> error + ptree option" where
  "from_dict_loop tree [] = Inr tree"
| "from_dict_loop tree ((node_dict, parent_id) # queue) =
     (let node_id = d_id node_dict;
          node_data = ParsedNodeData_from_dict (d_data node_dict)
      in case create_node (ParsedNodeData_to_text node_data) node_id parent_id node_data tree of
           Inl e \<Rightarrow> Inl e
         | Inr tree' \<Rightarrow>
             from_dict_loop tree'
               (queue @ map (\<lambda>child. (child, Some node_id)) (d_children node_dict)))"
  by pat_completeness auto
termination
proof (relation "measure (\<lambda>(t, q). sum_list (map (\<lambda>(d, p). dict_nodes d) q))", goal_cases)
  case 1
  show ?case by simp
next
  case (2 tree node_dict parent_id queue x xa y)
  show ?case by (cases node_dict) (simp add: comp_def)
qed

definition from_dict :: "tree_dict \<Rightarrow> error + ptree option" where
  "from_dict d = from_dict_loop None [(d, None)]"

text \<open>\<open>ParsedNode.to_dict\<close> followed by the \<open>children\<close> entry that \<open>ParsedTree.to_dict\<close> adds.\<close>

fun to_dict_node :: "ptree \<Rightarrow> tree_dict" where
  "to_dict_node (Node i tg d cs) = TreeDict i (ParsedNodeData_to_dict d) (map to_dict_node cs)"

definition to_dict :: "ptree option \<Rightarrow> int option \<Rightarrow> error + tree_dict" where
  "to_dict t node_id =
     bind (get_node t (default_root t node_id)) (\<lambda>node. Inr (to_dict_node node))"

subsection \<open>ParsedTree: heads, relations and subjects\<close>

text \<open>
  The generators are modelled by the list of what they yield when they are run to
  their end, or by the first exception raised on the way. A method called with the
  identifier of a node works on that node, so each method has a part that works on the
  node (\<open>_node\<close>) and an entry that looks the identifier up; the recursive calls
  \<open>self.get_heads(node.identifier, ...)\<close> go to the node itself, which is what the
  lookup returns in a tree whose identifiers are distinct (\<open>get_node_child\<close> and
  \<open>get_heads_by_identifier\<close> below). \<open>get_heads\<close> and \<open>get_relations\<close> begin
  with \<open>self.children(root_id)\<close>, \<open>get_subjects\<close> with \<open>self[root_id]\<close>; they
  differ on the empty tree only, in the error raised.
\<close>

definition role_is :: "ptree \<Rightarrow> string \<Rightarrow> bool" where
  "role_is child r = (role (data child) = Some r)"

text \<open>
  Lines 479 to 508 of \<open>get_heads\<close>: the list \<open>head_nodes\<close> before the recursion.
  \<open>children[-1]\<close> raises \<open>IndexError\<close> on an empty list.
\<close>

definition head_nodes_of :: "ptree \<Rightarrow> bool \<Rightarrow> error + ptree list" where
  "head_nodes_of r semantic =
     (let cs = children r;
          head_nodes = (if cs = [] then [r] else []);
          head_nodes = (if semantic \<and> head_nodes = []
                        then filter (\<lambda>child. role_is child ''DUMMY'' \<or> role_is child ''DUMMY1''
                                            \<or> role_is child ''DUMMY2'') cs
                        else head_nodes);
          head_nodes = (if semantic \<and> head_nodes = []
                        then filter (\<lambda>child. role_is child ''head'') cs
                        else head_nodes);
          head_nodes = (if head_nodes = []
                        then filter (\<lambda>child. role_is child ''Head'') cs
                        else head_nodes)
      in if head_nodes = []
         then (if cs = [] then Inl IndexError else Inr [last cs])
         else Inr head_nodes)"

lemma bind_cong [fundef_cong]:
  "m = m' \<Longrightarrow> (\<And>x. m' = Inr x \<Longrightarrow> f x = f' x) \<Longrightarrow> bind m f = bind m' f'"
  by (auto simp: bind_def split: sum.splits)

lemma head_nodes_of_children:
  "head_nodes_of r semantic = Inr hs \<Longrightarrow> node \<in> set hs \<Longrightarrow> children node \<noteq> [] \<Longrightarrow>
   node \<in> set (children r)"
  by (cases "children r = []") (auto simp: head_nodes_of_def Let_def split: if_splits)

lemma size_child: "c \<in> set (children r) \<Longrightarrow> size c < size r"
  by (cases r) (auto simp: less_Suc_eq_le size_list_estimation')

function get_heads_node :: "ptree \<Rightarrow> bool \<Rightarrow> bool \<Rightarrow> error + ptree list" where
  "get_heads_node r semantic deep =
     bind (head_nodes_of r semantic) (\<lambda>head_nodes.
     yield_from (map (\<lambda>node. if deep \<and> children node \<noteq> []
                              then get_heads_node node semantic True
                              else Inr [node]) head_nodes))"
  by pat_completeness auto
termination
  by (relation "measure (\<lambda>(r, semantic, deep). size r)")
     (auto dest!: head_nodes_of_children intro: size_child)

declare get_heads_node.simps [simp del]

definition get_heads :: "ptree option \<Rightarrow> int option \<Rightarrow> bool \<Rightarrow> bool \<Rightarrow> error + ptree list" where
  "get_heads t root_id semantic deep =
     bind (children_node t (default_root t root_id)) (\<lambda>r. get_heads_node r semantic deep)"

record parsed_relation =
  head :: ptree
  tail :: ptree
  relation :: ptree

text \<open>
  \<open>tail not in head_children\<close> compares node objects; in a tree with distinct
  identifiers two nodes are the same object exactly when they are equal as values.
\<close>

function get_relations_node :: "ptree \<Rightarrow> bool \<Rightarrow> error + parsed_relation list" where
  "get_relations_node r semantic =
     bind (get_heads_node r semantic False) (\<lambda>head_children.
     bind (get_heads_node r semantic True) (\<lambda>heads.
     bind (yield_from (map (\<lambda>head_node.
             yield_from (map (\<lambda>tail.
               if \<not> role_is tail ''Head'' \<and> tail \<notin> set head_children
               then (if children tail = []
                     then Inr [\<lparr>head = head_node, tail = tail, relation = tail\<rparr>]
                     else bind (get_heads_node tail semantic True) (\<lambda>nodes.
                          Inr (map (\<lambda>node. \<lparr>head = head_node, tail = node, relation = tail\<rparr>) nodes)))
               else Inr []) (children r))) heads)) (\<lambda>own.
     bind (yield_from (map (\<lambda>child. get_relations_node child semantic) (children r))) (\<lambda>below.
     Inr (own @ below)))))"
  by pat_completeness auto
termination
  by (relation "measure (\<lambda>(r, semantic). size r)") (auto intro: size_child)

declare get_relations_node.simps [simp del]

definition get_relations :: "ptree option \<Rightarrow> int option \<Rightarrow> bool \<Rightarrow> error + parsed_relation list" where
  "get_relations t root_id semantic =
     bind (children_node t (default_root t root_id)) (\<lambda>r. get_relations_node r semantic)"

text \<open>\<open>x.startswith(p)\<close> on an attribute that may be \<open>None\<close>: \<open>AttributeError\<close> then.\<close>

definition attr_startswith :: "string option \<Rightarrow> string \<Rightarrow> error + bool" where
  "attr_startswith x p = (case x of None \<Rightarrow> Inl AttributeError | Some s \<Rightarrow> Inr (startswith s p))"

text \<open>\<open>role in ROLES\<close> for a collection of strings: \<open>None\<close> is in none.\<close>

definition role_in :: "string option \<Rightarrow> string list \<Rightarrow> bool" where
  "role_in x roles = (case x of None \<Rightarrow> False | Some s \<Rightarrow> s \<in> set roles)"

text \<open>
  \<open>SUBJECT_ROLES\<close> and \<open>NEUTRAL_ROLES\<close> are imported from \<open>ckipnlp/data/parsed.py\<close>,
  which is not among the sources: they are parameters here.
\<close>

definition get_subjects_node ::
  "string list \<Rightarrow> string list \<Rightarrow> ptree \<Rightarrow> bool \<Rightarrow> bool \<Rightarrow> error + ptree list" where
  "get_subjects_node SUBJECT_ROLES NEUTRAL_ROLES r semantic deep =
     (if pos (data r) = Some ''NP'' then get_heads_node r semantic deep
      else if pos (data r) = Some ''S'' then
        bind (get_heads_node r False False) (\<lambda>heads.
        yield_from (map (\<lambda>h.
          bind (attr_startswith (pos (data h)) ''V'') (\<lambda>verb.
          if verb then
            yield_from (map (\<lambda>subroot.
              bind (attr_startswith (pos (data subroot)) ''N'') (\<lambda>noun.
              if noun \<and> (role_in (role (data subroot)) SUBJECT_ROLES
                         \<or> (role_in (role (data subroot)) NEUTRAL_ROLES \<and> ident subroot < ident h))
              then get_heads_node subroot semantic deep
              else Inr [])) (children r))
          else Inr [])) heads))
      else Inr [])"

definition get_subjects ::
  "string list \<Rightarrow> string list \<Rightarrow> ptree option \<Rightarrow> int option \<Rightarrow> bool \<Rightarrow> bool \<Rightarrow> error + ptree list" where
  "get_subjects SUBJECT_ROLES NEUTRAL_ROLES t root_id semantic deep =
     bind (get_node t (default_root t root_id)) (\<lambda>r.
       get_subjects_node SUBJECT_ROLES NEUTRAL_ROLES r semantic deep)"

subsection \<open>The example tree of the documentation\<close>

text \<open>
  The text \<open>S(Head:Nab:...|particle:Td:...)\<close> of the class documentation, whose two
  words are the UTF-8 bytes of three CJK characters and of one.
\<close>

definition zhongwenzi :: string where
  "zhongwenzi = [CHR 0xE4, CHR 0xB8, CHR 0xAD, CHR 0xE6, CHR 0x96, CHR 0x87, CHR 0xE5, CHR 0xAD, CHR 0x97]"

definition ye :: string where
  "ye = [CHR 0xE8, CHR 0x80, CHR 0xB6]"

definition example_text :: string where
  "example_text = ''S(Head:Nab:'' @ zhongwenzi @ ''|particle:Td:'' @ ye @ '')''"

definition head_node_ex :: ptree where
  "head_node_ex =
     Node 1 (''Head:Nab:'' @ zhongwenzi)
       \<lparr>role = Some ''Head'', pos = Some ''Nab'', word = Some zhongwenzi\<rparr> []"

definition particle_node_ex :: ptree where
  "particle_node_ex =
     Node 2 (''particle:Td:'' @ ye)
       \<lparr>role = Some ''particle'', pos = Some ''Td'', word = Some ye\<rparr> []"

definition example_tree :: ptree where
  "example_tree =
     Node 0 ''S'' \<lparr>role = None, pos = Some ''S'', word = None\<rparr>
       [head_node_ex, particle_node_ex]"

subsection \<open>Further example trees\<close>

text \<open>A root with three leaves, none of them marked as a head.\<close>

definition fallback_tree :: ptree where
  "fallback_tree =
     Node 0 ''S'' \<lparr>role = None, pos = Some ''S'', word = None\<rparr>
       [Node 1 ''agent:Na:x'' \<lparr>role = Some ''agent'', pos = Some ''Na'', word = Some ''x''\<rparr> [],
        Node 2 ''time:Nd:y'' \<lparr>role = Some ''time'', pos = Some ''Nd'', word = Some ''y''\<rparr> [],
        Node 3 ''goal:Nc:z'' \<lparr>role = Some ''goal'', pos = Some ''Nc'', word = Some ''z''\<rparr> []]"

text \<open>A clause whose head child has no part-of-speech tag, as a dict and as a tree.\<close>

definition unset_pos_dict :: tree_dict where
  "unset_pos_dict =
     TreeDict 0 \<lparr>dd_role = None, dd_pos = Some ''S'', dd_word = None\<rparr>
       [TreeDict 1 \<lparr>dd_role = Some ''Head'', dd_pos = None, dd_word = None\<rparr> []]"

definition unset_pos_tree :: ptree where
  "unset_pos_tree =
     Node 0 ''S'' \<lparr>role = None, pos = Some ''S'', word = None\<rparr>
       [Node 1 ''Head'' \<lparr>role = Some ''Head'', pos = None, word = None\<rparr> []]"


subsection \<open>The tree that a dict describes\<close>

text \<open>The identifiers of a dict, in depth-first order.\<close>

fun dict_ids :: "tree_dict \<Rightarrow> int list" where
  "dict_ids (TreeDict i dd cs) = i # concat (map dict_ids cs)"

text \<open>The tree that a dict describes: the same shape, the tag of a node the text of its data.\<close>

fun of_dict :: "tree_dict \<Rightarrow> ptree" where
  "of_dict (TreeDict i dd cs) =
     Node i (ParsedNodeData_to_text (ParsedNodeData_from_dict dd)) (ParsedNodeData_from_dict dd)
       (map of_dict cs)"

text \<open>
  What the entries of the queue of \<open>from_dict\<close> still stand for: each dict, as a
  whole subtree, appended under its parent, in the order of the queue.
\<close>

fun graft_all :: "ptree \<Rightarrow> (tree_dict \<times> int option) list \<Rightarrow> ptree" where
  "graft_all t [] = t"
| "graft_all t ((d, None) # q) = graft_all t q"
| "graft_all t ((d, Some p) # q) = graft_all (add_child p (of_dict d) t) q"

text \<open>The dict of the example of the class documentation.\<close>

definition example_dict :: tree_dict where
  "example_dict =
     TreeDict 0 \<lparr>dd_role = None, dd_pos = Some ''S'', dd_word = None\<rparr>
       [TreeDict 1 \<lparr>dd_role = Some ''Head'', dd_pos = Some ''Nab'', dd_word = Some zhongwenzi\<rparr> [],
        TreeDict 2 \<lparr>dd_role = Some ''particle'', dd_pos = Some ''Td'', dd_word = Some ye\<rparr> []]"

subsection \<open>Well-formed tree texts\<close>

text \<open>
  The bracket grammar of the specification (4.2),
  \<open>tree := node ('(' tree ('|' tree)* ')')?\<close>, with no empty segment: a node is one
  to three fields separated by \<open>:\<close>, every field non-empty and free of brackets and
  bars.
\<close>

definition field_ok :: "string \<Rightarrow> bool" where
  "field_ok f = (f \<noteq> [] \<and> CHR ''('' \<notin> set f \<and> CHR '')'' \<notin> set f \<and> CHR ''|'' \<notin> set f)"

definition wf_node :: "string \<Rightarrow> bool" where
  "wf_node n = (let fs = split_on CHR '':'' n in length fs \<le> 3 \<and> list_all field_ok fs)"

inductive wf_tree_text :: "string \<Rightarrow> bool" where
  leaf: "wf_node n \<Longrightarrow> wf_tree_text n"
| branch: "wf_node n \<Longrightarrow> cs \<noteq> [] \<Longrightarrow> \<forall>c\<in>set cs. wf_tree_text c \<Longrightarrow>
           wf_tree_text (n @ ''('' @ join ''|'' cs @ '')'')"

text \<open>
  The trees that the scan builds: the identifiers count up from \<open>n\<close> in depth-first
  order, every tag is a well-formed node text and the data of a node is read from its
  tag.
\<close>

fun canon :: "int \<Rightarrow> ptree \<Rightarrow> bool" and canon_list :: "int \<Rightarrow> ptree list \<Rightarrow> bool" where
  "canon n (Node i tg d cs) =
     (i = n \<and> wf_node tg \<and> ParsedNodeData_from_text tg = Inr d \<and> canon_list (n + 1) cs)"
| "canon_list n [] = True"
| "canon_list n (c # cs) = (canon n c \<and> canon_list (n + int (length (ids c))) cs)"

subsection \<open>The invariant of the scan\<close>

text \<open>
  What the loop keeps true of its state: every identifier of the tree is below the
  counter \<open>node_id\<close>, and every parent on the stack is a node of the tree.
\<close>

fun scan_inv :: "scan_state \<Rightarrow> bool" where
  "scan_inv (tree, node_id, node_queue, buf, ending) =
     ((\<forall>i\<in>set (tree_ids tree). i < node_id) \<and>
      (\<forall>p. Some p \<in> set node_queue \<longrightarrow> p \<in> set (tree_ids tree)))"

section \<open>Properties\<close>

subsection \<open>The fields of a node text\<close>

lemma split_on_no_sep: "c \<notin> set s \<Longrightarrow> split_on c s = [s]"
  by (induction s) (auto simp: Let_def)

lemma split_on_append:
  "c \<notin> set a \<Longrightarrow> split_on c (a @ c # b) = a # split_on c b"
  by (induction a) (auto simp: Let_def)

lemma split_on_join:
  "fs \<noteq> [] \<Longrightarrow> \<forall>f\<in>set fs. c \<notin> set f \<Longrightarrow> split_on c (join [c] fs) = fs"
  by (induction "[c]" fs rule: join.induct) (simp_all add: split_on_no_sep split_on_append)

lemma sep_in_join:
  "\<forall>f\<in>set fs. c \<notin> set f \<Longrightarrow> c \<in> set (join [c] fs) \<longleftrightarrow> 2 \<le> length fs"
  by (induction "[c]" fs rule: join.induct) auto

text \<open>
  C7: a node text is its fields joined by \<open>:\<close>, the fields themselves without
  \<open>:\<close>. With more than three fields \<open>ParsedNodeData.from_text\<close> fails (the
  \<open>TypeError\<close> of the named-tuple constructor is the failure that the specification
  calls MalformedFieldError); three fields are role, pos and word; two fields are role
  and pos, the word unset; one field is the pos alone.
\<close>

theorem ParsedNodeData_from_text_fields:
  assumes "\<forall>f\<in>set fs. CHR '':'' \<notin> set f" and "fs \<noteq> []"
  shows "ParsedNodeData_from_text (join '':'' fs) =
     (case fs of
        [p] \<Rightarrow> Inr \<lparr>role = None, pos = Some p, word = None\<rparr>
      | [r, p] \<Rightarrow> Inr \<lparr>role = Some r, pos = Some p, word = None\<rparr>
      | [r, p, w] \<Rightarrow> Inr \<lparr>role = Some r, pos = Some p, word = Some w\<rparr>
      | _ \<Rightarrow> Inl TypeError)"
proof (cases "2 \<le> length fs")
  case True
  then have "CHR '':'' \<in> set (join '':'' fs)"
    using assms(1) sep_in_join by blast
  then have "ParsedNodeData_from_text (join '':'' fs) = cls_positional fs"
    using assms by (simp add: ParsedNodeData_from_text_def split_on_join)
  then show ?thesis
    using True by (cases fs rule: cls_positional.cases) simp_all
next
  case False
  then obtain p where fs: "fs = [p]"
    using assms(2) by (cases fs) (auto simp: not_le Suc_le_eq)
  with assms(1) show ?thesis
    by (simp add: ParsedNodeData_from_text_def)
qed

theorem ParsedNodeData_from_text_fields_witness:
  "ParsedNodeData_from_text ''Head:Na:x:y'' = Inl TypeError \<and>
   ParsedNodeData_from_text ''Head:Na:x'' =
     Inr \<lparr>role = Some ''Head'', pos = Some ''Na'', word = Some ''x''\<rparr> \<and>
   ParsedNodeData_from_text ''Head:Na'' =
     Inr \<lparr>role = Some ''Head'', pos = Some ''Na'', word = None\<rparr> \<and>
   ParsedNodeData_from_text ''Na'' = Inr \<lparr>role = None, pos = Some ''Na'', word = None\<rparr>"
  using ParsedNodeData_from_text_fields [of "[''Head'', ''Na'', ''x'', ''y'']"]
        ParsedNodeData_from_text_fields [of "[''Head'', ''Na'', ''x'']"]
        ParsedNodeData_from_text_fields [of "[''Head'', ''Na'']"]
        ParsedNodeData_from_text_fields [of "[''Na'']"]
  by simp

subsection \<open>Normalization of the tree text\<close>

lemma find_sep_none: "\<not> contains s sep \<Longrightarrow> find_sep sep s = None"
  by (induction s) auto

lemma find_sep_first:
  "\<not> contains a ''] '' \<Longrightarrow> find_sep ''] '' (a @ CHR '']'' # CHR '' '' # b) = Some (a, b)"
proof (induction a)
  case Nil
  then show ?case by simp
next
  case (Cons c a)
  then show ?case by (cases a) auto
qed

text \<open>
  C6, as stated, fails: the text \<open>[1] [2] x#\<close> contains \<open>#\<close>, the first
  occurrence of \<open>] \<close> ends the prefix \<open>[1] \<close>, and the result is \<open>x\<close>, not the
  text \<open>[2] x\<close> that remains after the first occurrence.
\<close>

theorem normalize_text_counterexample:
  "CHR ''#'' \<in> set ''[1] [2] x#'' \<and>
   ''[1] [2] x#'' = ''[1'' @ ''] '' @ ''[2] x#'' \<and> \<not> contains ''[1'' ''] '' \<and>
   normalize_text ''[1] [2] x#'' = ''x'' \<and>
   normalize_text ''[1] [2] x#'' \<noteq> rstrip CHR ''#'' ''[2] x#''"
  by (simp add: normalize_text_def rstrip_def numeral_2_eq_2)

text \<open>
  C6, amended: a text without \<open>#\<close> is returned unchanged. From a text with \<open>#\<close>
  all trailing \<open>#\<close> are stripped, after everything up through and including the
  second occurrence of \<open>] \<close> has been discarded when there are two or more
  occurrences, up through the first when there is one, and nothing when there is none.
  In particular \<open>[3] S(Head:Na:x)#\<close> becomes \<open>S(Head:Na:x)\<close>.
\<close>

theorem normalize_text_cuts:
  "(CHR ''#'' \<notin> set s \<longrightarrow> normalize_text s = s) \<and>
   (CHR ''#'' \<in> set s \<and> \<not> contains s ''] '' \<longrightarrow> normalize_text s = rstrip CHR ''#'' s) \<and>
   (CHR ''#'' \<in> set (a @ ''] '' @ b) \<and> \<not> contains a ''] '' \<and> \<not> contains b ''] '' \<longrightarrow>
      normalize_text (a @ ''] '' @ b) = rstrip CHR ''#'' b) \<and>
   (CHR ''#'' \<in> set (a @ ''] '' @ b @ ''] '' @ c) \<and> \<not> contains a ''] '' \<and> \<not> contains b ''] '' \<longrightarrow>
      normalize_text (a @ ''] '' @ b @ ''] '' @ c) = rstrip CHR ''#'' c) \<and>
   normalize_text ''[3] S(Head:Na:x)#'' = ''S(Head:Na:x)''"
proof (intro conjI impI)
  show "normalize_text ''[3] S(Head:Na:x)#'' = ''S(Head:Na:x)''"
    by (simp add: normalize_text_def rstrip_def numeral_2_eq_2)
next
  assume "CHR ''#'' \<notin> set s"
  then show "normalize_text s = s" by (simp add: normalize_text_def)
next
  assume "CHR ''#'' \<in> set s \<and> \<not> contains s ''] ''"
  then show "normalize_text s = rstrip CHR ''#'' s"
    by (simp add: normalize_text_def numeral_2_eq_2 find_sep_none)
next
  assume h: "CHR ''#'' \<in> set (a @ ''] '' @ b) \<and> \<not> contains a ''] '' \<and> \<not> contains b ''] ''"
  then have "split_max ''] '' 2 (a @ ''] '' @ b) = [a, b]"
    by (simp add: numeral_2_eq_2 find_sep_first find_sep_none)
  with h show "normalize_text (a @ ''] '' @ b) = rstrip CHR ''#'' b"
    by (simp add: normalize_text_def)
next
  assume h: "CHR ''#'' \<in> set (a @ ''] '' @ b @ ''] '' @ c) \<and> \<not> contains a ''] '' \<and> \<not> contains b ''] ''"
  then have "split_max ''] '' 2 (a @ ''] '' @ b @ ''] '' @ c) = [a, b, c]"
    by (simp add: numeral_2_eq_2 find_sep_first)
  with h show "normalize_text (a @ ''] '' @ b @ ''] '' @ c) = rstrip CHR ''#'' c"
    by (simp add: normalize_text_def)
qed

theorem normalize_text_cuts_witness:
  "normalize_text ''S(a)'' = ''S(a)'' \<and>
   normalize_text ''S(a)##'' = ''S(a)'' \<and>
   normalize_text ''[3] S(a)#'' = ''S(a)'' \<and>
   normalize_text ''#1:1.[0] [3] S(a] b)#'' = ''S(a] b)''"
  using normalize_text_cuts [of "''S(a)''"]
        normalize_text_cuts [of "''S(a)##''" "''[3''" "''S(a)#''" "''S(a] b)#''"]
        normalize_text_cuts [of "''S(a)##''" "''#1:1.[0''" "''[3''" "''S(a] b)#''"]
  by (simp add: rstrip_def)

subsection \<open>Heads and relations of leaves, and the example tree\<close>

lemma get_heads_node_leaf:
  "children r = [] \<Longrightarrow> get_heads_node r semantic deep = Inr [r]"
  by (subst get_heads_node.simps) (simp add: head_nodes_of_def bind_def)

lemma get_relations_node_leaf:
  "children r = [] \<Longrightarrow> get_relations_node r semantic = Inr []"
  by (subst get_relations_node.simps) (simp add: get_heads_node_leaf bind_def)

lemma from_text_example: "from_text example_text True = Inr (Some example_tree)"
  by (simp add: from_text_def normalize_text_def example_text_def example_tree_def
      head_node_ex_def particle_node_ex_def zhongwenzi_def ye_def
      bind_def flush_def peek_def pop_def create_node_def ParsedNodeData_from_text_def
      tree_ids_def Let_def)

lemma example_children: "children example_tree = [head_node_ex, particle_node_ex]"
  by (simp add: example_tree_def)

lemma get_heads_example: "get_heads_node example_tree True deep = Inr [head_node_ex]"
  by (subst get_heads_node.simps)
     (simp add: example_children head_nodes_of_def role_is_def bind_def get_heads_node_leaf,
      simp add: head_node_ex_def particle_node_ex_def)

lemma get_relations_example:
  "get_relations_node example_tree True =
     Inr [\<lparr>head = head_node_ex, tail = particle_node_ex, relation = particle_node_ex\<rparr>]"
  by (subst get_relations_node.simps)
     (simp add: get_heads_example example_children bind_def get_relations_node_leaf,
      simp add: head_node_ex_def particle_node_ex_def role_is_def get_relations_node_leaf)

text \<open>
  C3: on the tree built from \<open>S(Head:Nab:...|particle:Td:...)\<close>, \<open>get_relations\<close>
  at the root yields exactly one relation; its head has the tag of the first child, its
  tail and its relation node both have the tag of the second child.
\<close>

theorem get_relations_example_text:
  "bind (from_text example_text True) (\<lambda>t. get_relations t None True) =
     Inr [\<lparr>head = head_node_ex, tail = particle_node_ex, relation = particle_node_ex\<rparr>] \<and>
   tag head_node_ex = ''Head:Nab:'' @ zhongwenzi \<and>
   tag particle_node_ex = ''particle:Td:'' @ ye"
proof -
  have "get_relations (Some example_tree) None True =
     Inr [\<lparr>head = head_node_ex, tail = particle_node_ex, relation = particle_node_ex\<rparr>]"
    using get_relations_example
    by (simp add: get_relations_def children_node_eq get_node_def default_root_def root_def bind_def example_tree_def)
  then show ?thesis
    by (simp add: from_text_example bind_def head_node_ex_def particle_node_ex_def)
qed

subsection \<open>Heads\<close>

lemma yield_from_map_total:
  "(\<And>x. x \<in> set xs \<Longrightarrow> \<exists>ys. f x = Inr ys) \<Longrightarrow> \<exists>zs. yield_from (map f xs) = Inr zs"
proof (induction xs)
  case Nil
  then show ?case by simp
next
  case (Cons a xs)
  then obtain ys zs where "f a = Inr ys" "yield_from (map f xs) = Inr zs"
    by (metis list.set_intros(1,2))
  then show ?case by simp
qed

lemma yield_from_map_set:
  "yield_from (map f xs) = Inr zs \<Longrightarrow>
   set zs = {z. \<exists>x\<in>set xs. \<exists>ys. f x = Inr ys \<and> z \<in> set ys}"
proof (induction xs arbitrary: zs)
  case Nil
  then show ?case by simp
next
  case (Cons a xs)
  then show ?case by (auto split: sum.splits)
qed

lemma yield_from_singletons: "yield_from (map (\<lambda>x. Inr [x]) xs) = Inr xs"
  by (induction xs) simp_all

lemma head_nodes_of_total: "\<exists>hs. head_nodes_of r semantic = Inr hs"
  by (cases "children r = []") (auto simp: head_nodes_of_def Let_def)

lemma head_nodes_of_cases:
  assumes "head_nodes_of r semantic = Inr hs"
  shows "(children r = [] \<and> hs = [r]) \<or> (children r \<noteq> [] \<and> hs \<noteq> [] \<and> set hs \<subseteq> set (children r))"
  using assms
  by (cases "children r = []") (auto simp: head_nodes_of_def Let_def split: if_splits)

lemma get_heads_node_shallow: "get_heads_node r semantic False = head_nodes_of r semantic"
  by (subst get_heads_node.simps)
     (auto simp: bind_def yield_from_singletons split: sum.splits)

lemma get_heads_node_total: "\<exists>hs. get_heads_node r semantic deep = Inr hs"
proof (induction r semantic deep rule: get_heads_node.induct)
  case (1 r semantic deep)
  obtain hn where hn: "head_nodes_of r semantic = Inr hn"
    using head_nodes_of_total by blast
  have "\<exists>zs. yield_from (map (\<lambda>node. if deep \<and> children node \<noteq> []
                              then get_heads_node node semantic True
                              else Inr [node]) hn) = Inr zs"
    by (rule yield_from_map_total) (use 1 hn in auto)
  then show ?case
    by (subst get_heads_node.simps) (simp add: hn bind_def)
qed

lemma get_heads_node_leaves:
  "get_heads_node r semantic True = Inr hs \<Longrightarrow> h \<in> set hs \<Longrightarrow> children h = []"
proof (induction r semantic "True" arbitrary: hs rule: get_heads_node.induct)
  case (1 r semantic)
  obtain hn where hn: "head_nodes_of r semantic = Inr hn"
    using head_nodes_of_total by blast
  have y: "yield_from (map (\<lambda>node. if True \<and> children node \<noteq> []
                              then get_heads_node node semantic True
                              else Inr [node]) hn) = Inr hs"
    using "1.prems"(1) by (subst (asm) get_heads_node.simps) (simp add: hn bind_def)
  from yield_from_map_set [OF y] "1.prems"(2)
  obtain x ys where x: "x \<in> set hn"
    "(if True \<and> children x \<noteq> [] then get_heads_node x semantic True else Inr [x]) = Inr ys"
    "h \<in> set ys"
    by auto
  show ?case
  proof (cases "children x = []")
    case True
    with x show ?thesis by auto
  next
    case False
    with x have "get_heads_node x semantic True = Inr ys" by simp
    from "1.hyps" [OF hn x(1) _ this x(3)] False show ?thesis by simp
  qed
qed

lemma get_node_example:
  "get_node (Some example_tree) (default_root (Some example_tree) None) = Inr example_tree"
  by (simp add: get_node_def default_root_def root_def example_tree_def)

text \<open>
  C10: for a node of a tree, \<open>get_heads\<close> with \<open>deep=True\<close> returns, for either
  value of \<open>semantic\<close>, and every node that it yields is a leaf.
\<close>

theorem get_heads_deep_yields_leaves:
  assumes "get_node t (default_root t root_id) = Inr r"
  shows "\<exists>hs. get_heads t root_id semantic True = Inr hs \<and> (\<forall>h\<in>set hs. children h = [])"
proof -
  obtain hs where hs: "get_heads_node r semantic True = Inr hs"
    using get_heads_node_total by blast
  then have "\<forall>h\<in>set hs. children h = []"
    using get_heads_node_leaves by blast
  with hs assms show ?thesis
    by (simp add: get_heads_def children_node_eq bind_def)
qed

theorem get_heads_deep_yields_leaves_witness:
  "get_node (Some example_tree) (default_root (Some example_tree) None) = Inr example_tree \<and>
   (\<exists>hs. get_heads (Some example_tree) None True True = Inr hs \<and>
      (\<forall>h\<in>set hs. children h = []))"
  using get_node_example get_heads_deep_yields_leaves [OF get_node_example, of True]
  by simp

lemma head_nodes_of_fallback:
  assumes "children r \<noteq> []"
    and "\<forall>c\<in>set (children r).
           role (data c) \<notin> {Some ''Head'', Some ''head'', Some ''DUMMY'', Some ''DUMMY1'', Some ''DUMMY2''}"
  shows "head_nodes_of r True = Inr [last (children r)]"
proof -
  have "filter (\<lambda>child. role_is child ''DUMMY'' \<or> role_is child ''DUMMY1'' \<or> role_is child ''DUMMY2'')
          (children r) = []"
    using assms(2) by (auto simp: role_is_def filter_empty_conv)
  moreover have "filter (\<lambda>child. role_is child ''head'') (children r) = []"
    using assms(2) by (auto simp: role_is_def filter_empty_conv)
  moreover have "filter (\<lambda>child. role_is child ''Head'') (children r) = []"
    using assms(2) by (auto simp: role_is_def filter_empty_conv)
  ultimately show ?thesis
    using assms(1) by (simp add: head_nodes_of_def)
qed

text \<open>
  C2: a node with children, none of which has the role \<open>Head\<close>, \<open>head\<close>, \<open>DUMMY\<close>,
  \<open>DUMMY1\<close> or \<open>DUMMY2\<close>: in semantic mode the list of head nodes is the last
  child alone. With \<open>deep=False\<close> it is what \<open>get_heads\<close> yields; with
  \<open>deep=True\<close> the last child is yielded when it is a leaf, and its own heads
  otherwise. In particular, when all the children are leaves, \<open>get_heads\<close> yields
  exactly the last child.
\<close>

theorem get_heads_last_child:
  assumes "get_node t (default_root t root_id) = Inr r"
    and "children r \<noteq> []"
    and "\<forall>c\<in>set (children r).
           role (data c) \<notin> {Some ''Head'', Some ''head'', Some ''DUMMY'', Some ''DUMMY1'', Some ''DUMMY2''}"
  shows "head_nodes_of r True = Inr [last (children r)] \<and>
         get_heads t root_id True False = Inr [last (children r)] \<and>
         get_heads t root_id True True =
           (if children (last (children r)) = [] then Inr [last (children r)]
            else get_heads_node (last (children r)) True True) \<and>
         ((\<forall>c\<in>set (children r). children c = []) \<longrightarrow>
            get_heads t root_id True deep = Inr [last (children r)])"
proof -
  have hn: "head_nodes_of r True = Inr [last (children r)]"
    using assms(2,3) by (rule head_nodes_of_fallback)
  have shallow: "get_heads_node r True False = Inr [last (children r)]"
    by (simp add: get_heads_node_shallow hn)
  have deep: "get_heads_node r True True =
           (if children (last (children r)) = [] then Inr [last (children r)]
            else get_heads_node (last (children r)) True True)"
    by (subst get_heads_node.simps) (auto simp: hn bind_def split: sum.splits)
  have leaf: "get_heads_node r True deep = Inr [last (children r)]"
    if "\<forall>c\<in>set (children r). children c = []"
  proof -
    have "children (last (children r)) = []"
      using that assms(2) by simp
    then show ?thesis
      using shallow deep by (cases deep) simp_all
  qed
  show ?thesis
    using hn shallow deep leaf assms(1) by (simp add: get_heads_def children_node_eq bind_def)
qed

theorem get_heads_last_child_witness:
  "get_heads (Some fallback_tree) None True False =
     Inr [Node 3 ''goal:Nc:z'' \<lparr>role = Some ''goal'', pos = Some ''Nc'', word = Some ''z''\<rparr> []] \<and>
   get_heads (Some fallback_tree) None True True =
     Inr [Node 3 ''goal:Nc:z'' \<lparr>role = Some ''goal'', pos = Some ''Nc'', word = Some ''z''\<rparr> []]"
proof -
  have n: "get_node (Some fallback_tree) (default_root (Some fallback_tree) None) = Inr fallback_tree"
    by (simp add: get_node_def default_root_def root_def fallback_tree_def)
  have c: "children fallback_tree \<noteq> []"
    by (simp add: fallback_tree_def)
  have r: "\<forall>c\<in>set (children fallback_tree).
           role (data c) \<notin> {Some ''Head'', Some ''head'', Some ''DUMMY'', Some ''DUMMY1'', Some ''DUMMY2''}"
    by (simp add: fallback_tree_def)
  show ?thesis
    using get_heads_last_child [OF n c r, of True] get_heads_last_child [OF n c r, of False]
    by (simp add: fallback_tree_def)
qed

subsection \<open>Do the traversals raise?\<close>

lemma from_dict_unset_pos: "from_dict unset_pos_dict = Inr (Some unset_pos_tree)"
  by (simp add: from_dict_def unset_pos_dict_def unset_pos_tree_def create_node_def tree_ids_def
      ParsedNodeData_from_dict_def ParsedNodeData_to_text_def truthy_def)

text \<open>
  C9, as stated, fails: the dict of a clause \<open>S\<close> with one child of role \<open>Head\<close>
  and no pos loads into a tree, and \<open>get_subjects\<close> at its root raises
  \<open>AttributeError\<close>, from \<open>head.data.pos.startswith('V')\<close> on a pos that is
  \<open>None\<close>.
\<close>

theorem get_subjects_raises_counterexample:
  "from_dict unset_pos_dict = Inr (Some unset_pos_tree) \<and>
   get_subjects [''agent''] [''theme''] (Some unset_pos_tree) None True True = Inl AttributeError"
proof -
  have "get_heads_node unset_pos_tree False False = Inr (children unset_pos_tree)"
    by (simp add: get_heads_node_shallow head_nodes_of_def role_is_def unset_pos_tree_def)
  then have "get_subjects_node [''agent''] [''theme''] unset_pos_tree True True = Inl AttributeError"
    by (simp add: get_subjects_node_def bind_def attr_startswith_def unset_pos_tree_def)
  then show ?thesis
    by (simp add: from_dict_unset_pos get_subjects_def get_node_def default_root_def root_def
        bind_def unset_pos_tree_def)
qed

lemma get_relations_node_total: "\<exists>rs. get_relations_node r semantic = Inr rs"
proof (induction r semantic rule: get_relations_node.induct)
  case (1 r semantic)
  obtain hc where hc: "get_heads_node r semantic False = Inr hc"
    using get_heads_node_total by blast
  obtain hs where hs: "get_heads_node r semantic True = Inr hs"
    using get_heads_node_total by blast
  have tails: "\<exists>zs. yield_from (map (\<lambda>tail.
               if \<not> role_is tail ''Head'' \<and> tail \<notin> set hc
               then (if children tail = []
                     then Inr [\<lparr>head = head_node, tail = tail, relation = tail\<rparr>]
                     else bind (get_heads_node tail semantic True) (\<lambda>nodes.
                          Inr (map (\<lambda>node. \<lparr>head = head_node, tail = node, relation = tail\<rparr>) nodes)))
               else Inr []) (children r)) = Inr zs" for head_node
  proof (rule yield_from_map_total)
    fix x
    obtain ns where "get_heads_node x semantic True = Inr ns"
      using get_heads_node_total by blast
    then show "\<exists>ys. (if \<not> role_is x ''Head'' \<and> x \<notin> set hc
               then (if children x = []
                     then Inr [\<lparr>head = head_node, tail = x, relation = x\<rparr>]
                     else bind (get_heads_node x semantic True) (\<lambda>nodes.
                          Inr (map (\<lambda>node. \<lparr>head = head_node, tail = node, relation = x\<rparr>) nodes)))
               else Inr []) = Inr ys"
      by (simp add: bind_def)
  qed
  have "\<exists>own. yield_from (map (\<lambda>head_node.
             yield_from (map (\<lambda>tail.
               if \<not> role_is tail ''Head'' \<and> tail \<notin> set hc
               then (if children tail = []
                     then Inr [\<lparr>head = head_node, tail = tail, relation = tail\<rparr>]
                     else bind (get_heads_node tail semantic True) (\<lambda>nodes.
                          Inr (map (\<lambda>node. \<lparr>head = head_node, tail = node, relation = tail\<rparr>) nodes)))
               else Inr []) (children r))) hs) = Inr own"
    by (rule yield_from_map_total) (rule tails)
  then obtain own where own: "yield_from (map (\<lambda>head_node.
             yield_from (map (\<lambda>tail.
               if \<not> role_is tail ''Head'' \<and> tail \<notin> set hc
               then (if children tail = []
                     then Inr [\<lparr>head = head_node, tail = tail, relation = tail\<rparr>]
                     else bind (get_heads_node tail semantic True) (\<lambda>nodes.
                          Inr (map (\<lambda>node. \<lparr>head = head_node, tail = node, relation = tail\<rparr>) nodes)))
               else Inr []) (children r))) hs) = Inr own"
    by blast
  have "\<exists>zs. yield_from (map (\<lambda>child. get_relations_node child semantic) (children r)) = Inr zs"
    by (rule yield_from_map_total) (use 1 hc hs own in blast)
  then obtain below where
    below: "yield_from (map (\<lambda>child. get_relations_node child semantic) (children r)) = Inr below"
    by blast
  show ?case
    by (subst get_relations_node.simps) (simp add: hc hs own below bind_def)
qed

lemma get_subjects_node_total:
  assumes "\<forall>c\<in>set (children r). pos (data c) \<noteq> None"
  shows "\<exists>ss. get_subjects_node SUBJECT_ROLES NEUTRAL_ROLES r semantic deep = Inr ss"
proof (cases "pos (data r) = Some ''NP''")
  case True
  then show ?thesis
    using get_heads_node_total by (simp add: get_subjects_node_def)
next
  case np: False
  show ?thesis
  proof (cases "pos (data r) = Some ''S''")
    case False
    with np show ?thesis by (simp add: get_subjects_node_def)
  next
    case True
    obtain hs where hs: "head_nodes_of r False = Inr hs"
      using head_nodes_of_total by blast
    have hpos: "pos (data h) \<noteq> None" if "h \<in> set hs" for h
      using head_nodes_of_cases [OF hs] that assms True by auto
    have "\<exists>zs. yield_from (map (\<lambda>h.
          bind (attr_startswith (pos (data h)) ''V'') (\<lambda>verb.
          if verb then
            yield_from (map (\<lambda>subroot.
              bind (attr_startswith (pos (data subroot)) ''N'') (\<lambda>noun.
              if noun \<and> (role_in (role (data subroot)) SUBJECT_ROLES
                         \<or> (role_in (role (data subroot)) NEUTRAL_ROLES \<and> ident subroot < ident h))
              then get_heads_node subroot semantic deep
              else Inr [])) (children r))
          else Inr [])) hs) = Inr zs"
    proof (rule yield_from_map_total)
      fix h assume "h \<in> set hs"
      then obtain pv where pv: "pos (data h) = Some pv"
        using hpos by blast
      have "\<exists>zs. yield_from (map (\<lambda>subroot.
              bind (attr_startswith (pos (data subroot)) ''N'') (\<lambda>noun.
              if noun \<and> (role_in (role (data subroot)) SUBJECT_ROLES
                         \<or> (role_in (role (data subroot)) NEUTRAL_ROLES \<and> ident subroot < ident h))
              then get_heads_node subroot semantic deep
              else Inr [])) (children r)) = Inr zs"
      proof (rule yield_from_map_total)
        fix c assume "c \<in> set (children r)"
        then obtain pc where pc: "pos (data c) = Some pc"
          using assms by blast
        obtain ns where "get_heads_node c semantic deep = Inr ns"
          using get_heads_node_total by blast
        then show "\<exists>ys. bind (attr_startswith (pos (data c)) ''N'') (\<lambda>noun.
              if noun \<and> (role_in (role (data c)) SUBJECT_ROLES
                         \<or> (role_in (role (data c)) NEUTRAL_ROLES \<and> ident c < ident h))
              then get_heads_node c semantic deep
              else Inr []) = Inr ys"
          by (simp add: pc attr_startswith_def bind_def)
      qed
      then show "\<exists>ys. bind (attr_startswith (pos (data h)) ''V'') (\<lambda>verb.
          if verb then
            yield_from (map (\<lambda>subroot.
              bind (attr_startswith (pos (data subroot)) ''N'') (\<lambda>noun.
              if noun \<and> (role_in (role (data subroot)) SUBJECT_ROLES
                         \<or> (role_in (role (data subroot)) NEUTRAL_ROLES \<and> ident subroot < ident h))
              then get_heads_node subroot semantic deep
              else Inr [])) (children r))
          else Inr []) = Inr ys"
        by (simp add: pv attr_startswith_def bind_def)
    qed
    then show ?thesis
      using True np by (simp add: get_subjects_node_def get_heads_node_shallow hs bind_def)
  qed
qed

text \<open>
  C9, amended: for every node of a tree and every combination of the flags,
  \<open>get_heads\<close> and \<open>get_relations\<close> return without raising; \<open>get_subjects\<close>
  returns without raising when every child of the node has its pos set (as in every
  tree built by \<open>from_text\<close>).
\<close>

theorem traversals_return:
  assumes "get_node t (default_root t root_id) = Inr r"
  shows "(\<exists>hs. get_heads t root_id semantic deep = Inr hs) \<and>
         (\<exists>rs. get_relations t root_id semantic = Inr rs) \<and>
         ((\<forall>c\<in>set (children r). pos (data c) \<noteq> None) \<longrightarrow>
            (\<exists>ss. get_subjects SUBJECT_ROLES NEUTRAL_ROLES t root_id semantic deep = Inr ss))"
  using assms get_heads_node_total [of r semantic deep] get_relations_node_total [of r semantic]
    get_subjects_node_total [of r SUBJECT_ROLES NEUTRAL_ROLES semantic deep]
  by (simp add: get_heads_def children_node_eq get_relations_def get_subjects_def bind_def)

theorem traversals_return_witness:
  "get_node (Some example_tree) (default_root (Some example_tree) None) = Inr example_tree \<and>
   (\<exists>hs. get_heads (Some example_tree) None True True = Inr hs) \<and>
   (\<exists>rs. get_relations (Some example_tree) None True = Inr rs) \<and>
   (\<exists>ss. get_subjects [''agent''] [''theme''] (Some example_tree) None True True = Inr ss)"
proof -
  have "\<forall>c\<in>set (children example_tree). pos (data c) \<noteq> None"
    by (simp add: example_tree_def head_node_ex_def particle_node_ex_def)
  then show ?thesis
    using get_node_example
      traversals_return [OF get_node_example, of True True "[''agent'']" "[''theme'']"]
    by simp
qed

subsection \<open>The nodes below a node\<close>

lemma self_subtree: "r \<in> set (subtrees r)"
  by (cases r) simp

lemma child_subtree: "c \<in> set (children r) \<Longrightarrow> n \<in> set (subtrees c) \<Longrightarrow> n \<in> set (subtrees r)"
  by (cases r) auto

lemma subtree_ident: "n \<in> set (subtrees r) \<Longrightarrow> ident n \<in> set (ids r)"
proof (induction r)
  case (Node i tg d cs)
  then show ?case by (cases n) auto
qed

lemma first_some_Some:
  "first_some xs = Some y \<Longrightarrow> Some y \<in> set xs"
  by (induction xs rule: first_some.induct) auto

lemma find_node_subtrees: "find_node i r = Some n \<Longrightarrow> n \<in> set (subtrees r) \<and> ident n = i"
proof (induction r)
  case (Node j tg d cs)
  show ?case
  proof (cases "i = j")
    case True
    with Node.prems show ?thesis
      by (auto simp del: subtrees.simps simp: self_subtree)
  next
    case False
    with Node.prems have "first_some (map (find_node i) cs) = Some n"
      by simp
    then have "Some n \<in> set (map (find_node i) cs)"
      by (rule first_some_Some)
    then obtain c where "c \<in> set cs" "find_node i c = Some n" by auto
    with Node.IH show ?thesis by auto
  qed
qed






subsection \<open>Subjects\<close>









subsection \<open>Appending a child\<close>

lemma add_child_absent: "p \<notin> set (ids t) \<Longrightarrow> add_child p s t = t"
  by (induction t) (auto simp: map_idI)

lemma ids_add_child_subset: "set (ids (add_child p s t)) \<subseteq> set (ids t) \<union> set (ids s)"
  by (induction t) auto

lemma ids_add_child_superset: "set (ids t) \<subseteq> set (ids (add_child p s t))"
proof (induction t)
  case (Node j tg d cs)
  then have "\<And>c. c \<in> set cs \<Longrightarrow> set (ids c) \<subseteq> set (ids (add_child p s c))"
    by blast
  then show ?case by (cases "j = p") auto
qed

lemma ids_add_child: "p \<in> set (ids t) \<Longrightarrow> set (ids (add_child p s t)) = set (ids t) \<union> set (ids s)"
proof (induction t)
  case (Node j tg d cs)
  show ?case
  proof (cases "j = p")
    case True
    then show ?thesis by auto
  next
    case False
    with Node.prems obtain c where c: "c \<in> set cs" "p \<in> set (ids c)" by auto
    have sup: "set (ids (Node j tg d cs)) \<subseteq> set (ids (add_child p s (Node j tg d cs)))"
      by (rule ids_add_child_superset)
    have "set (ids s) \<subseteq> set (ids (add_child p s c))"
      using Node.IH [OF c] by blast
    with c False have "set (ids s) \<subseteq> set (ids (add_child p s (Node j tg d cs)))"
      by auto
    with sup ids_add_child_subset [of p s "Node j tg d cs"] show ?thesis by blast
  qed
qed


lemma distinct_add_child_list:
  assumes elem: "\<And>c. c \<in> set cs \<Longrightarrow> distinct (ids (add_child p s c))"
    and "distinct (concat (map ids cs))"
    and "set (ids s) \<inter> set (concat (map ids cs)) = {}"
  shows "distinct (concat (map ids (map (add_child p s) cs)))"
  using assms
proof (induction cs)
  case Nil
  then show ?case by simp
next
  case (Cons c cs)
  have rest: "distinct (concat (map ids (map (add_child p s) cs)))"
    using Cons by auto
  have first: "distinct (ids (add_child p s c))"
    using Cons.prems(1) by simp
  have "set (ids (add_child p s c)) \<inter> set (concat (map ids (map (add_child p s) cs))) = {}"
  proof (cases "p \<in> set (ids c)")
    case True
    with Cons.prems(2) have "\<forall>c'\<in>set cs. p \<notin> set (ids c')" by auto
    then have "map (add_child p s) cs = cs"
      by (simp add: add_child_absent map_idI)
    moreover have "set (ids (add_child p s c)) \<subseteq> set (ids c) \<union> set (ids s)"
      by (rule ids_add_child_subset)
    ultimately show ?thesis
      using Cons.prems(2,3) by auto
  next
    case False
    then have "add_child p s c = c" by (rule add_child_absent)
    moreover have "set (concat (map ids (map (add_child p s) cs)))
                   \<subseteq> set (concat (map ids cs)) \<union> set (ids s)"
      using ids_add_child_subset [of p s] by fastforce
    ultimately show ?thesis
      using Cons.prems(2,3) by auto
  qed
  with first rest show ?case by simp
qed

lemma distinct_add_child:
  "distinct (ids t) \<Longrightarrow> distinct (ids s) \<Longrightarrow> set (ids t) \<inter> set (ids s) = {} \<Longrightarrow>
   distinct (ids (add_child p s t))"
proof (induction t)
  case (Node j tg d cs)
  show ?case
  proof (cases "j = p")
    case True
    with Node.prems show ?thesis by auto
  next
    case False
    have "distinct (concat (map ids (map (add_child p s) cs)))"
    proof (rule distinct_add_child_list)
      fix c assume c: "c \<in> set cs"
      with Node.prems have "distinct (ids c)" "set (ids c) \<inter> set (ids s) = {}"
        by (auto simp: distinct_concat_iff)
      with Node.IH [OF c] Node.prems(2) show "distinct (ids (add_child p s c))" by blast
    next
      show "distinct (concat (map ids cs))" using Node.prems(1) by simp
      show "set (ids s) \<inter> set (concat (map ids cs)) = {}" using Node.prems(3) by auto
    qed
    moreover have "j \<notin> set (concat (map ids (map (add_child p s) cs)))"
    proof -
      have "set (concat (map ids (map (add_child p s) cs))) \<subseteq> set (concat (map ids cs)) \<union> set (ids s)"
        using ids_add_child_subset [of p s] by fastforce
      with Node.prems show ?thesis by auto
    qed
    ultimately show ?thesis using False by simp
  qed
qed

lemma add_child_commute:
  "i \<noteq> p \<Longrightarrow> i \<notin> set (ids y) \<Longrightarrow> p \<notin> set (ids x) \<Longrightarrow>
   add_child i x (add_child p y u) = add_child p y (add_child i x u)"
  by (induction u) (auto simp: add_child_absent)

lemma add_child_append:
  "i \<notin> set (ids t) \<Longrightarrow>
   add_child i x (add_child p (Node i tg d ks) t) = add_child p (Node i tg d (ks @ [x])) t"
  by (induction t) (auto simp: add_child_absent map_idI)

subsection \<open>Unbalanced brackets\<close>

lemma from_text_loop_append:
  "from_text_loop st (p @ q) = bind (from_text_loop st p) (\<lambda>st'. from_text_loop st' q)"
  by (induction p arbitrary: st) (auto simp: bind_def split: sum.splits)

lemma from_text_step_queue:
  assumes "from_text_step (tree, node_id, node_queue, buf, ending) char =
             Inr (tree', node_id', node_queue', buf', ending')"
  shows "length node_queue' + (if char = CHR '')'' then 1 else 0) =
         length node_queue + (if char = CHR ''('' then 1 else 0)"
  using assms
  by (auto simp: bind_def pop_def split: if_splits sum.splits prod.splits)

lemma from_text_loop_queue:
  assumes "from_text_loop (tree, node_id, node_queue, buf, ending) p =
             Inr (tree', node_id', node_queue', buf', ending')"
  shows "length node_queue' + count_list p CHR '')'' = length node_queue + count_list p CHR ''(''"
  using assms
proof (induction p arbitrary: tree node_id node_queue buf ending)
  case Nil
  then show ?case by simp
next
  case (Cons c p)
  from Cons.prems obtain t1 n1 q1 x1 e1 where
    step: "from_text_step (tree, node_id, node_queue, buf, ending) c = Inr (t1, n1, q1, x1, e1)"
    and rest: "from_text_loop (t1, n1, q1, x1, e1) p = Inr (tree', node_id', node_queue', buf', ending')"
    by (auto split: sum.splits simp del: from_text_step.simps)
  from from_text_step_queue [OF step] Cons.IH [OF rest]
  show ?case by (auto split: if_splits)
qed

text \<open>
  C8, as stated, fails: in \<open>A(B))|\<close> the second \<open>)\<close> is met when only the
  sentinel of the root is on the stack of parents, and the \<open>|\<close> when the stack is
  empty; \<open>from_text\<close> pops the sentinel, signals nothing and returns the tree of
  \<open>A(B)\<close>.
\<close>

theorem from_text_unbalanced_counterexample:
  "from_text ''A(B))|'' False =
     Inr (Some (Node 0 ''A'' \<lparr>role = None, pos = Some ''A'', word = None\<rparr>
                 [Node 1 ''B'' \<lparr>role = None, pos = Some ''B'', word = None\<rparr> []]))"
  by (simp add: from_text_def bind_def flush_def peek_def pop_def create_node_def
      ParsedNodeData_from_text_def tree_ids_def)

lemma from_text_deep_close:
  assumes "count_list (take n s) CHR ''('' + 2 \<le> count_list (take n s) CHR '')''"
  shows "\<exists>e. from_text s False = Inl e"
proof (rule ccontr)
  assume "\<not> ?thesis"
  then obtain st where all: "from_text_loop (None, 0, [None], [], True) s = Inr st"
    by (cases "from_text_loop (None, 0, [None], [], True) s") (auto simp: from_text_def bind_def)
  have "s = take n s @ drop n s" by simp
  with all have "bind (from_text_loop (None, 0, [None], [], True) (take n s))
                   (\<lambda>st'. from_text_loop st' (drop n s)) = Inr st"
    by (metis from_text_loop_append)
  then obtain t1 n1 q1 x1 e1 where
    "from_text_loop (None, 0, [None], [], True) (take n s) = Inr (t1, n1, q1, x1, e1)"
    by (cases "from_text_loop (None, 0, [None], [], True) (take n s)") (auto simp: bind_def)
  from from_text_loop_queue [OF this] assms show False by simp
qed

lemma ParsedNodeData_from_text_error:
  "ParsedNodeData_from_text buf = Inl err \<Longrightarrow> err = TypeError"
  by (cases "split_on CHR '':'' buf" rule: cls_positional.cases)
     (auto simp: ParsedNodeData_from_text_def split: if_splits)

lemma ParsedNodeData_from_text_many_fields:
  "ParsedNodeData_from_text buf = Inl TypeError \<longleftrightarrow> 3 < length (split_on CHR '':'' buf)"
proof (cases "CHR '':'' \<in> set buf")
  case True
  then show ?thesis
    by (cases "split_on CHR '':'' buf" rule: cls_positional.cases)
       (simp_all add: ParsedNodeData_from_text_def)
next
  case False
  then show ?thesis
    by (simp add: ParsedNodeData_from_text_def split_on_no_sep)
qed

lemma flush_empty_stack:
  "flush tree node_id [] buf =
     (if 3 < length (split_on CHR '':'' buf) then Inl TypeError else Inl IndexError)"
proof (cases "ParsedNodeData_from_text buf")
  case (Inl err)
  then have "ParsedNodeData_from_text buf = Inl TypeError"
    using ParsedNodeData_from_text_error by blast
  then show ?thesis
    using ParsedNodeData_from_text_many_fields [of buf] by (simp add: flush_def bind_def)
next
  case (Inr d)
  then have "\<not> 3 < length (split_on CHR '':'' buf)"
    using ParsedNodeData_from_text_many_fields [of buf] by simp
  with Inr show ?thesis by (simp add: flush_def bind_def peek_def)
qed

lemma create_node_ids:
  "create_node tg i parent d t = Inr t' \<Longrightarrow> set (tree_ids t') = insert i (set (tree_ids t))"
  by (auto simp: create_node_def tree_ids_def ids_add_child split: if_splits option.splits)

lemma create_node_error:
  assumes "create_node tg i parent d t = Inl err" "i \<notin> set (tree_ids t)"
    and "\<forall>p. parent = Some p \<longrightarrow> p \<in> set (tree_ids t)"
  shows "err = MultipleRootError"
  using assms by (auto simp: create_node_def tree_ids_def split: if_splits option.splits)

lemma flush_ids:
  "flush t n q buf = Inr t' \<Longrightarrow> set (tree_ids t') = insert n (set (tree_ids t))"
  by (auto simp: flush_def bind_def dest: create_node_ids split: sum.splits)

lemma flush_error:
  assumes "scan_inv (t, n, q, buf, e)" "flush t n q buf = Inl err"
  shows "err \<in> {TypeError, IndexError, MultipleRootError}"
proof (cases "ParsedNodeData_from_text buf")
  case (Inl a)
  with assms(2) ParsedNodeData_from_text_error [OF Inl] show ?thesis
    by (simp add: flush_def bind_def)
next
  case (Inr d)
  show ?thesis
  proof (cases "q = []")
    case True
    with assms(2) Inr show ?thesis by (simp add: flush_def bind_def peek_def)
  next
    case False
    with assms(2) Inr have c: "create_node buf n (last q) d t = Inl err"
      by (simp add: flush_def bind_def peek_def)
    have "n \<notin> set (tree_ids t)" using assms(1) by auto
    moreover have "\<forall>p. last q = Some p \<longrightarrow> p \<in> set (tree_ids t)"
    proof (intro allI impI)
      fix p assume "last q = Some p"
      with False have "Some p \<in> set q" using last_in_set [of q] by simp
      with assms(1) show "p \<in> set (tree_ids t)" by simp
    qed
    ultimately have "err = MultipleRootError"
      using c by (intro create_node_error)
    then show ?thesis by simp
  qed
qed

lemma flush_inv:
  assumes "scan_inv (t, n, q, buf, e)" "flush t n q buf = Inr t'"
  shows "scan_inv (t', n + 1, q @ [Some n], b', e')" "scan_inv (t', n + 1, q, b', e')"
    "scan_inv (t', n + 1, butlast q, b', e')"
proof -
  have ids: "set (tree_ids t') = insert n (set (tree_ids t))"
    using assms(2) by (rule flush_ids)
  have lt: "\<forall>i\<in>set (tree_ids t). i < n"
    and qs: "\<forall>p. Some p \<in> set q \<longrightarrow> p \<in> set (tree_ids t)"
    using assms(1) by simp_all
  from lt have lt': "\<forall>i\<in>set (tree_ids t'). i < n + 1"
    unfolding ids by force
  from qs have qs': "\<forall>p. Some p \<in> set q \<longrightarrow> p \<in> set (tree_ids t')"
    unfolding ids by blast
  show "scan_inv (t', n + 1, q @ [Some n], b', e')"
    using lt' qs' ids by simp
  show "scan_inv (t', n + 1, q, b', e')"
    using lt' qs' by simp
  show "scan_inv (t', n + 1, butlast q, b', e')"
    using lt' qs' by (simp add: in_set_butlastD)
qed

lemma scan_inv_butlast:
  "scan_inv (t, n, q, buf, e) \<Longrightarrow> scan_inv (t, n, butlast q, b', e')"
  by (simp add: in_set_butlastD)

lemma scan_inv_buf:
  "scan_inv (t, n, q, buf, e) \<Longrightarrow> scan_inv (t, n, q, b', e')"
  by simp

lemma from_text_step_inv:
  assumes "scan_inv st"
  shows "case from_text_step st c of
           Inl err \<Rightarrow> err \<in> {TypeError, IndexError, MultipleRootError}
         | Inr st' \<Rightarrow> scan_inv st'"
proof -
  obtain t n q buf e where st: "st = (t, n, q, buf, e)" by (cases st) auto
  note inv = assms [unfolded st]
  show ?thesis
  proof (cases "flush t n q buf")
    case (Inl err)
    have k: "err \<in> {TypeError, IndexError, MultipleRootError}"
      using inv Inl by (rule flush_error)
    show ?thesis
      unfolding st using k Inl scan_inv_butlast [OF inv] scan_inv_buf [OF inv]
      by (simp add: bind_def pop_def del: scan_inv.simps)
  next
    case (Inr t')
    show ?thesis
      unfolding st using Inr flush_inv [OF inv Inr] scan_inv_butlast [OF inv] scan_inv_buf [OF inv]
      by (simp add: bind_def pop_def del: scan_inv.simps)
  qed
qed

lemma from_text_loop_error:
  "scan_inv st \<Longrightarrow> from_text_loop st s = Inl err \<Longrightarrow>
     err \<in> {TypeError, IndexError, MultipleRootError}"
proof (induction s arbitrary: st)
  case Nil
  then show ?case by (cases st) simp
next
  case (Cons c s)
  show ?case
  proof (cases "from_text_step st c")
    case (Inl a)
    with Cons.prems(2) have "a = err" by simp
    with from_text_step_inv [OF Cons.prems(1), of c] Inl show ?thesis by simp
  next
    case (Inr st')
    with from_text_step_inv [OF Cons.prems(1), of c] have "scan_inv st'" by simp
    moreover from Inr Cons.prems(2) have "from_text_loop st' s = Inl err" by simp
    ultimately show ?thesis by (rule Cons.IH)
  qed
qed

lemma from_text_error_kinds:
  "from_text s nf = Inl err \<Longrightarrow> err \<in> {TypeError, IndexError, MultipleRootError}"
  using from_text_loop_error [of "(None, 0, [None], [], True)"]
  by (auto simp: from_text_def bind_def tree_ids_def split: sum.splits if_splits)

lemma from_text_deep_close_kinds:
  assumes "count_list (take n (if nf then normalize_text s else s)) CHR ''('' + 2
             \<le> count_list (take n (if nf then normalize_text s else s)) CHR '')''"
  shows "from_text s nf \<in> {Inl TypeError, Inl IndexError, Inl MultipleRootError}"
proof -
  have "from_text s nf = from_text (if nf then normalize_text s else s) False"
    by (simp add: from_text_def)
  moreover obtain err where "from_text (if nf then normalize_text s else s) False = Inl err"
    using from_text_deep_close [OF assms] by blast
  ultimately have e: "from_text s nf = Inl err" by simp
  from from_text_error_kinds [OF e] e show ?thesis by auto
qed

text \<open>
  C8, amended: \<open>ParsedTree.from_text\<close> has no StructuralError and does not detect every
  unbalanced input. A \<open>)\<close> met right after a closed node, while only the sentinel of
  the root is on the stack of parents, pops the sentinel and raises nothing; a \<open>|\<close>
  met right after a closed node is skipped and raises nothing, whatever the stack
  holds, the empty stack included. On the empty stack every other case is detected: a
  \<open>)\<close> met right after a closed node raises \<open>IndexError\<close>, and a \<open>)\<close> or \<open>|\<close> met
  with pending node text raises \<open>TypeError\<close> if that text has more than three fields
  separated by \<open>:\<close>, and \<open>IndexError\<close> otherwise. Hence every input of which some
  prefix (taken after the normalization when \<open>normalize\<close> is set) has at least two
  more \<open>)\<close> than \<open>(\<close> is rejected, with \<open>TypeError\<close>, \<open>IndexError\<close> or
  \<open>MultipleRootError\<close>.
\<close>

theorem from_text_bracket_errors:
  "from_text_step (tree, node_id, [None], buf, True) CHR '')'' = Inr (tree, node_id, [], [], True) \<and>
   from_text_step (tree, node_id, node_queue, buf, True) CHR ''|'' =
     Inr (tree, node_id, node_queue, [], True) \<and>
   from_text_step (tree, node_id, [], buf, True) CHR '')'' = Inl IndexError \<and>
   from_text_step (tree, node_id, [], buf, False) CHR '')'' =
     (if 3 < length (split_on CHR '':'' buf) then Inl TypeError else Inl IndexError) \<and>
   from_text_step (tree, node_id, [], buf, False) CHR ''|'' =
     (if 3 < length (split_on CHR '':'' buf) then Inl TypeError else Inl IndexError) \<and>
   (count_list (take n (if nf then normalize_text s else s)) CHR ''('' + 2
      \<le> count_list (take n (if nf then normalize_text s else s)) CHR '')'' \<longrightarrow>
    from_text s nf \<in> {Inl TypeError, Inl IndexError, Inl MultipleRootError})"
  using from_text_deep_close_kinds [of n nf s]
  by (simp add: bind_def pop_def flush_empty_stack)

theorem from_text_bracket_errors_witness:
  "count_list (take 6 ''A(B)))'') CHR ''('' + 2 \<le> count_list (take 6 ''A(B)))'') CHR '')'' \<and>
   from_text ''A(B)))'' False \<in> {Inl TypeError, Inl IndexError, Inl MultipleRootError} \<and>
   from_text ''A(B)))'' False = Inl IndexError \<and>
   from_text ''a:b:c:d))'' False = Inl TypeError \<and>
   from_text ''x|y))'' False = Inl MultipleRootError"
proof -
  have h: "count_list (take 6 ''A(B)))'') CHR ''('' + 2 \<le> count_list (take 6 ''A(B)))'') CHR '')''"
    by simp
  have "from_text ''A(B)))'' False \<in> {Inl TypeError, Inl IndexError, Inl MultipleRootError}"
    using from_text_bracket_errors [where n = 6 and s = "''A(B)))''" and nf = False] h by simp
  moreover have "from_text ''A(B)))'' False = Inl IndexError"
    by (simp add: from_text_def bind_def flush_def peek_def pop_def create_node_def
      ParsedNodeData_from_text_def tree_ids_def)
  moreover have "from_text ''a:b:c:d))'' False = Inl TypeError"
    by (simp add: from_text_def bind_def flush_def peek_def pop_def create_node_def
      ParsedNodeData_from_text_def tree_ids_def)
  moreover have "from_text ''x|y))'' False = Inl MultipleRootError"
    by (simp add: from_text_def bind_def flush_def peek_def pop_def create_node_def
      ParsedNodeData_from_text_def tree_ids_def)
  ultimately show ?thesis using h by blast
qed

subsection \<open>The dict round trip\<close>

lemma ids_of_dict: "ids (of_dict d) = dict_ids d"
  by (induction d) (simp add: map_idI comp_def cong: map_cong)

lemma to_dict_of_dict: "to_dict_node (of_dict d) = d"
  by (induction d)
     (simp add: ParsedNodeData_to_dict_def ParsedNodeData_from_dict_def map_idI cong: map_cong)

lemma graft_all_append: "graft_all t (q @ q') = graft_all (graft_all t q) q'"
  by (induction t q rule: graft_all.induct) simp_all

lemma graft_children_root:
  "graft_all (Node i tg d ks) (map (\<lambda>c. (c, Some i)) cs) = Node i tg d (ks @ map of_dict cs)"
  by (induction cs arbitrary: ks) simp_all

lemma graft_children:
  "i \<notin> set (ids t) \<Longrightarrow>
   graft_all (add_child p (Node i tg d ks) t) (map (\<lambda>c. (c, Some i)) cs) =
   add_child p (Node i tg d (ks @ map of_dict cs)) t"
  by (induction cs arbitrary: ks) (simp_all add: add_child_append)

lemma add_child_graft_all:
  assumes "\<forall>e\<in>set q. \<exists>p. snd e = Some p \<and> p \<noteq> i \<and> p \<notin> set (ids x) \<and> i \<notin> set (dict_ids (fst e))"
  shows "add_child i x (graft_all u q) = graft_all (add_child i x u) q"
  using assms
proof (induction u q rule: graft_all.induct)
  case (1 t)
  then show ?case by simp
next
  case (2 t d q)
  then show ?case by simp
next
  case (3 t d p q)
  then show ?case
    by (simp add: add_child_commute [of i p] ids_of_dict)
qed

lemma graft_all_commute:
  assumes "\<forall>e\<in>set q. \<exists>p. snd e = Some p \<and> p \<noteq> i \<and> p \<notin> set (concat (map dict_ids cs))
             \<and> i \<notin> set (dict_ids (fst e))"
  shows "graft_all (graft_all u q) (map (\<lambda>c. (c, Some i)) cs) =
         graft_all (graft_all u (map (\<lambda>c. (c, Some i)) cs)) q"
  using assms
proof (induction cs arbitrary: u)
  case Nil
  then show ?case by simp
next
  case (Cons c cs)
  have "add_child i (of_dict c) (graft_all u q) = graft_all (add_child i (of_dict c) u) q"
    by (rule add_child_graft_all) (use Cons.prems in \<open>auto simp: ids_of_dict\<close>)
  moreover have "graft_all (graft_all (add_child i (of_dict c) u) q) (map (\<lambda>c. (c, Some i)) cs) =
         graft_all (graft_all (add_child i (of_dict c) u) (map (\<lambda>c. (c, Some i)) cs)) q"
    by (rule Cons.IH) (use Cons.prems in auto)
  ultimately show ?case by simp
qed

lemma from_dict_loop_graft:
  assumes "tree = Some t"
    and "distinct (ids t @ concat (map dict_ids (map fst q)))"
    and "\<forall>e\<in>set q. \<exists>p. snd e = Some p \<and> p \<in> set (ids t)"
  shows "from_dict_loop tree q = Inr (Some (graft_all t q))"
  using assms
proof (induction tree q arbitrary: t rule: from_dict_loop.induct)
  case (1 tree)
  then show ?case by simp
next
  case (2 tree node_dict parent_id queue)
  let ?i = "d_id node_dict" and ?cs = "d_children node_dict"
  let ?data = "ParsedNodeData_from_dict (d_data node_dict)"
  from "2.prems"(3) obtain p where p: "parent_id = Some p" "p \<in> set (ids t)"
    by auto
  let ?leaf = "Node ?i (ParsedNodeData_to_text ?data) ?data []"
  let ?t1 = "add_child p ?leaf t"
  let ?ce = "map (\<lambda>child. (child, Some ?i)) ?cs"
  have dids: "dict_ids node_dict = ?i # concat (map dict_ids ?cs)"
    by (cases node_dict) simp
  have od: "of_dict node_dict = Node ?i (ParsedNodeData_to_text ?data) ?data (map of_dict ?cs)"
    by (cases node_dict) simp
  from "2.prems"(2) dids have fresh: "?i \<notin> set (ids t)"
    by auto
  have create: "create_node (ParsedNodeData_to_text ?data) ?i parent_id ?data tree = Inr (Some ?t1)"
    using fresh p "2.prems"(1) by (simp add: create_node_def tree_ids_def)
  have ids1: "set (ids ?t1) = set (ids t) \<union> {?i}"
    using ids_add_child [OF p(2), of ?leaf] by simp
  have d1: "distinct (ids ?t1)"
    using "2.prems"(2) fresh by (intro distinct_add_child) auto
  have inv1: "distinct (ids ?t1 @ concat (map dict_ids (map fst (queue @ ?ce))))"
    using "2.prems"(2) d1 ids1 dids by (auto simp: comp_def)
  have inv2: "\<forall>e\<in>set (queue @ ?ce). \<exists>p. snd e = Some p \<and> p \<in> set (ids ?t1)"
    using "2.prems"(3) ids1 by auto
  have loop: "from_dict_loop (Some ?t1) (queue @ ?ce) = Inr (Some (graft_all ?t1 (queue @ ?ce)))"
    by (rule "2.IH" [OF refl refl create refl inv1 inv2])
  have "graft_all ?t1 (queue @ ?ce) = graft_all t ((node_dict, parent_id) # queue)"
  proof -
    have "graft_all ?t1 (queue @ ?ce) = graft_all (graft_all ?t1 queue) ?ce"
      by (rule graft_all_append)
    also have "\<dots> = graft_all (graft_all ?t1 ?ce) queue"
    proof (rule graft_all_commute)
      show "\<forall>e\<in>set queue. \<exists>p. snd e = Some p \<and> p \<noteq> ?i \<and>
              p \<notin> set (concat (map dict_ids ?cs)) \<and> ?i \<notin> set (dict_ids (fst e))"
      proof
        fix e assume e: "e \<in> set queue"
        with "2.prems"(3) obtain p' where p': "snd e = Some p'" "p' \<in> set (ids t)"
          by auto
        from "2.prems"(2) dids e have "?i \<notin> set (dict_ids (fst e))"
          by auto
        moreover from "2.prems"(2) dids have "set (ids t) \<inter> set (concat (map dict_ids ?cs)) = {}"
          by auto
        ultimately show "\<exists>p. snd e = Some p \<and> p \<noteq> ?i \<and>
              p \<notin> set (concat (map dict_ids ?cs)) \<and> ?i \<notin> set (dict_ids (fst e))"
          using p' fresh by blast
      qed
    qed
    also have "graft_all ?t1 ?ce = add_child p (of_dict node_dict) t"
      using graft_children [OF fresh, of p _ ?data "[]" ?cs] by (simp add: od)
    finally show ?thesis
      using p by simp
  qed
  with loop create show ?case
    by (simp add: Let_def)
qed

text \<open>
  Identifiers that occur twice are not loaded: treelib refuses the second node.
\<close>

lemma from_dict_duplicate_id:
  "from_dict (TreeDict 0 \<lparr>dd_role = None, dd_pos = Some ''S'', dd_word = None\<rparr>
               [TreeDict 0 \<lparr>dd_role = None, dd_pos = Some ''Na'', dd_word = None\<rparr> []]) =
     Inl DuplicatedNodeIdError"
  by (simp add: from_dict_def create_node_def tree_ids_def)

text \<open>
  C5: for every dict of the shape \<open>{id, data, children}\<close> whose identifiers are
  pairwise distinct (a dict of a tree: identifiers are unique within a tree),
  \<open>from_dict\<close> returns a tree, \<open>to_dict\<close> of that tree is the dict itself, and the
  identifiers of the tree are those of the dict.
\<close>

theorem from_dict_to_dict:
  assumes "distinct (dict_ids d)"
  shows "\<exists>t. from_dict d = Inr t \<and> to_dict t None = Inr d \<and> tree_ids t = dict_ids d"
proof -
  obtain i dd cs where d: "d = TreeDict i dd cs"
    by (cases d)
  let ?data = "ParsedNodeData_from_dict dd"
  let ?leaf = "Node i (ParsedNodeData_to_text ?data) ?data []"
  let ?ce = "map (\<lambda>child. (child, Some i)) cs"
  have "from_dict_loop (Some ?leaf) ?ce = Inr (Some (graft_all ?leaf ?ce))"
    using assms d by (intro from_dict_loop_graft) (auto simp: comp_def)
  moreover have "graft_all ?leaf ?ce = of_dict d"
    using graft_children_root [of i _ ?data "[]" cs] d by simp
  ultimately have "from_dict d = Inr (Some (of_dict d))"
    using d by (simp add: from_dict_def create_node_def tree_ids_def Let_def)
  moreover have "to_dict (Some (of_dict d)) None = Inr d"
    using to_dict_of_dict [of d] d
    by (simp add: to_dict_def get_node_def default_root_def root_def bind_def)
  moreover have "tree_ids (Some (of_dict d)) = dict_ids d"
    by (simp add: tree_ids_def ids_of_dict)
  ultimately show ?thesis by blast
qed

theorem from_dict_to_dict_witness:
  "distinct (dict_ids example_dict) \<and>
   (\<exists>t. from_dict example_dict = Inr t \<and> to_dict t None = Inr example_dict \<and>
      tree_ids t = dict_ids example_dict)"
proof -
  have h: "distinct (dict_ids example_dict)"
    by (simp add: example_dict_def)
  with from_dict_to_dict [OF h] show ?thesis by simp
qed

subsection \<open>The text round trip\<close>

lemma split_on_nonempty: "split_on c s \<noteq> []"
  by (induction s) (simp_all add: Let_def)

lemma join_Cons_Cons: "join sep ((x # a) # r) = x # join sep (a # r)"
  by (cases r) simp_all

lemma join_split_on: "join [c] (split_on c s) = s"
proof (induction s)
  case Nil
  then show ?case by simp
next
  case (Cons x xs)
  obtain y ys where r: "split_on c xs = y # ys"
    using split_on_nonempty [of c xs] by (cases "split_on c xs") auto
  with Cons show ?case
    by (auto simp: Let_def join_Cons_Cons)
qed

lemma set_split_on: "f \<in> set (split_on c s) \<Longrightarrow> set f \<subseteq> set s \<and> c \<notin> set f"
proof (induction s arbitrary: f)
  case Nil
  then show ?case by simp
next
  case (Cons x xs)
  obtain y ys where r: "split_on c xs = y # ys"
    using split_on_nonempty [of c xs] by (cases "split_on c xs") auto
  have "y \<in> set (split_on c xs)" "\<And>z. z \<in> set ys \<Longrightarrow> z \<in> set (split_on c xs)"
    using r by auto
  with Cons.IH have y: "set y \<subseteq> set xs \<and> c \<notin> set y"
    and ys: "\<And>z. z \<in> set ys \<Longrightarrow> set z \<subseteq> set xs \<and> c \<notin> set z"
    by blast+
  from Cons.prems r y ys show ?case
    by (auto simp: Let_def split: if_splits)
qed

lemma split_on_chars: "set s = (\<Union>f\<in>set (split_on c s). set f) \<union> (if c \<in> set s then {c} else {})"
proof (induction s)
  case Nil
  then show ?case by simp
next
  case (Cons x xs)
  obtain y ys where r: "split_on c xs = y # ys"
    using split_on_nonempty [of c xs] by (cases "split_on c xs") auto
  with Cons show ?case
    by (auto simp: Let_def split: if_splits)
qed


lemma wf_node_chars:
  assumes "wf_node tg"
  shows "tg \<noteq> [] \<and> CHR ''('' \<notin> set tg \<and> CHR '')'' \<notin> set tg \<and> CHR ''|'' \<notin> set tg"
proof -
  from assms have ok: "\<forall>f\<in>set (split_on CHR '':'' tg). field_ok f"
    by (simp add: wf_node_def Let_def list_all_iff)
  have "tg \<noteq> []"
    using ok by (auto simp: field_ok_def)
  moreover have "CHR ''('' \<notin> set tg \<and> CHR '')'' \<notin> set tg \<and> CHR ''|'' \<notin> set tg"
    using ok split_on_chars [of tg "CHR '':''"] by (auto simp: field_ok_def split: if_splits)
  ultimately show ?thesis by simp
qed

lemma wf_node_data:
  assumes "wf_node tg"
  shows "\<exists>d. ParsedNodeData_from_text tg = Inr d \<and> ParsedNodeData_to_text d = tg"
proof -
  let ?fs = "split_on CHR '':'' tg"
  from assms have len: "length ?fs \<le> 3" and ok: "\<forall>f\<in>set ?fs. f \<noteq> []"
    by (auto simp: wf_node_def Let_def list_all_iff field_ok_def)
  have nosep: "\<forall>f\<in>set ?fs. CHR '':'' \<notin> set f"
    using set_split_on by blast
  have tg: "join '':'' ?fs = tg"
    by (rule join_split_on)
  have colon: "CHR '':'' \<in> set tg \<longleftrightarrow> 2 \<le> length ?fs"
    using sep_in_join [OF nosep] tg by simp
  consider p where "?fs = [p]" | r p where "?fs = [r, p]" | r p w where "?fs = [r, p, w]"
    using len split_on_nonempty [of "CHR '':''" tg]
    by (cases ?fs rule: cls_positional.cases) auto
  then show ?thesis
  proof cases
    case 1
    with tg colon ok show ?thesis
      by (auto simp: ParsedNodeData_from_text_def ParsedNodeData_to_text_def truthy_def)
  next
    case 2
    with tg colon ok show ?thesis
      by (auto simp: ParsedNodeData_from_text_def ParsedNodeData_to_text_def truthy_def)
  next
    case 3
    with tg colon ok show ?thesis
      by (auto simp: ParsedNodeData_from_text_def ParsedNodeData_to_text_def truthy_def)
  qed
qed

lemma step_plain:
  "c \<noteq> CHR ''('' \<Longrightarrow> c \<noteq> CHR '')'' \<Longrightarrow> c \<noteq> CHR ''|'' \<Longrightarrow>
   from_text_step (t, n, q, buf, e) c = Inr (t, n, q, buf @ [c], False)"
  by simp

lemma scan_label:
  assumes "CHR ''('' \<notin> set l" "CHR '')'' \<notin> set l" "CHR ''|'' \<notin> set l"
  shows "from_text_loop (t, n, q, buf, e) (l @ rest) =
         from_text_loop (t, n, q, buf @ l, if l = [] then e else False) rest"
  using assms
proof (induction l arbitrary: buf e)
  case Nil
  then show ?case by simp
next
  case (Cons x l)
  from Cons.prems have "x \<noteq> CHR ''(''" "x \<noteq> CHR '')''" "x \<noteq> CHR ''|''"
    by auto
  then have "from_text_step (t, n, q, buf, e) x = Inr (t, n, q, buf @ [x], False)"
    by (rule step_plain)
  with Cons show ?case
    by (simp del: from_text_step.simps)
qed


lemma join_nonempty: "xs \<noteq> [] \<Longrightarrow> \<forall>x\<in>set xs. x \<noteq> [] \<Longrightarrow> join sep xs \<noteq> []"
  by (induction sep xs rule: join.induct) auto

lemma canon_ids:
  "canon n r \<Longrightarrow> \<forall>i\<in>set (ids r). n \<le> i \<and> i < n + int (length (ids r))"
  "canon_list n cs \<Longrightarrow>
     \<forall>i\<in>set (concat (map ids cs)). n \<le> i \<and> i < n + int (length (concat (map ids cs)))"
proof (induction n r and n cs rule: canon_canon_list.induct)
  case (1 n i tg d cs)
  then show ?case by fastforce
next
  case (2 n)
  then show ?case by simp
next
  case (3 n c cs)
  then show ?case by fastforce
qed

lemma canon_text:
  assumes "canon n (Node i tg d cs)"
  shows "ParsedNodeData_to_text d = tg"
  using assms wf_node_data [of tg] by auto

lemma to_text_node_nonempty: "canon n r \<Longrightarrow> to_text_node r \<noteq> []"
proof (cases r)
  case (Node i tg d cs)
  assume c: "canon n r"
  with Node have "ParsedNodeData_to_text d = tg" "tg \<noteq> []"
    using canon_text wf_node_chars by auto
  with Node show ?thesis by (simp add: Let_def)
qed

lemma canon_list_elem: "canon_list n cs \<Longrightarrow> c \<in> set cs \<Longrightarrow> \<exists>m. canon m c"
  by (induction cs arbitrary: n) auto

lemma to_text_node_canon:
  assumes "canon n (Node i tg d cs)"
  shows "to_text_node (Node i tg d cs) =
           (if cs = [] then tg else tg @ ''('' @ join ''|'' (map to_text_node cs) @ '')'')"
proof (cases "cs = []")
  case True
  with canon_text [OF assms] show ?thesis by simp
next
  case False
  have "\<forall>x\<in>set (map to_text_node cs). x \<noteq> []"
    using assms canon_list_elem to_text_node_nonempty by fastforce
  with False have "join ''|'' (map to_text_node cs) \<noteq> []"
    by (intro join_nonempty) auto
  with False canon_text [OF assms] show ?thesis by (simp add: Let_def)
qed

lemma add_children_node:
  "n \<notin> set (ids t) \<Longrightarrow>
   foldl (\<lambda>u c. add_child n c u) (add_child p (Node n tg d ks) t) cs =
   add_child p (Node n tg d (ks @ cs)) t"
  by (induction cs arbitrary: ks) (simp_all add: add_child_append)

lemma add_children_root:
  "foldl (\<lambda>u c. add_child n c u) (Node n tg d ks) cs = Node n tg d (ks @ cs)"
  by (induction cs arbitrary: ks) simp_all

lemma flush_child:
  assumes "ParsedNodeData_from_text tg = Inr d" "p \<in> set (ids t)" "n \<notin> set (ids t)"
  shows "flush (Some t) n (q @ [Some p]) tg = Inr (Some (add_child p (Node n tg d []) t))"
  using assms by (simp add: flush_def bind_def peek_def create_node_def tree_ids_def)


lemma scan_children:
  assumes "ks \<noteq> []"
    and "\<And>c m u e dl rest. c \<in> set ks \<Longrightarrow> canon m c \<Longrightarrow> pp \<in> set (ids u) \<Longrightarrow>
           \<forall>i\<in>set (ids u). i < m \<Longrightarrow> dl = CHR ''|'' \<or> dl = CHR '')'' \<Longrightarrow>
           from_text_loop (Some u, m, Q @ [Some pp], [], e) (to_text_node c @ dl # rest) =
           from_text_loop (Some (add_child pp c u), m + int (length (ids c)),
             (if dl = CHR '')'' then Q else Q @ [Some pp]), [], True) rest"
    and "canon_list m ks" "pp \<in> set (ids u)" "\<forall>i\<in>set (ids u). i < m"
  shows "from_text_loop (Some u, m, Q @ [Some pp], [], e)
           (join ''|'' (map to_text_node ks) @ CHR '')'' # rest) =
         from_text_loop (Some (foldl (\<lambda>u c. add_child pp c u) u ks),
           m + int (length (concat (map ids ks))), Q, [], True) rest"
  using assms
proof (induction ks arbitrary: u m e rule: list_nonempty_induct)
  case (single c)
  from single.prems(2) have "canon m c" by simp
  from single.prems(1) [OF _ this single.prems(3,4), of "CHR '')''" e rest]
  show ?case by simp
next
  case (cons c ks)
  from cons.prems(2) have c: "canon m c" and ks: "canon_list (m + int (length (ids c))) ks"
    by simp_all
  let ?u = "add_child pp c u"
  obtain k ks' where kk: "ks = k # ks'"
    using cons.hyps by (cases ks) auto
  have eq_join: "join ''|'' (map to_text_node (c # ks)) @ CHR '')'' # rest =
             to_text_node c @ CHR ''|'' # (join ''|'' (map to_text_node ks) @ CHR '')'' # rest)"
    by (simp add: kk)
  have first: "from_text_loop (Some u, m, Q @ [Some pp], [], e)
                 (to_text_node c @ CHR ''|'' # (join ''|'' (map to_text_node ks) @ CHR '')'' # rest)) =
               from_text_loop (Some ?u, m + int (length (ids c)), Q @ [Some pp], [], True)
                 (join ''|'' (map to_text_node ks) @ CHR '')'' # rest)"
    using cons.prems(1) [OF _ c cons.prems(3,4), of "CHR ''|''" e] by simp
  have pp: "pp \<in> set (ids ?u)"
    using cons.prems(3) ids_add_child_superset by blast
  have bound: "\<forall>i\<in>set (ids ?u). i < m + int (length (ids c))"
  proof
    fix i assume "i \<in> set (ids ?u)"
    then have "i \<in> set (ids u) \<or> i \<in> set (ids c)"
      using ids_add_child_subset [of pp c u] by blast
    then show "i < m + int (length (ids c))"
      using cons.prems(4) canon_ids(1) [OF c] by fastforce
  qed
  have "from_text_loop (Some ?u, m + int (length (ids c)), Q @ [Some pp], [], True)
          (join ''|'' (map to_text_node ks) @ CHR '')'' # rest) =
        from_text_loop (Some (foldl (\<lambda>u c. add_child pp c u) ?u ks),
          m + int (length (ids c)) + int (length (concat (map ids ks))), Q, [], True) rest"
    by (rule cons.IH [OF _ ks pp bound]) (use cons.prems(1) in auto)
  with first eq_join show ?case by (simp add: add.assoc)
qed


lemma step_open:
  "from_text_step (t, n, q, buf, e) CHR ''('' =
     bind (flush t n q buf) (\<lambda>tree'. Inr (tree', n + 1, q @ [Some n], [], e))"
  by simp

lemma step_close_flush:
  "from_text_step (t, n, q @ [x], buf, False) CHR '')'' =
     bind (flush t n (q @ [x]) buf) (\<lambda>tree'. Inr (tree', n + 1, q, [], True))"
  by (simp add: bind_def pop_def split: sum.splits)

lemma step_bar_flush:
  "from_text_step (t, n, q, buf, False) CHR ''|'' =
     bind (flush t n q buf) (\<lambda>tree'. Inr (tree', n + 1, q, [], True))"
  by (simp add: bind_def split: sum.splits)

lemma step_close_skip:
  "from_text_step (t, n, q @ [x], buf, True) CHR '')'' = Inr (t, n, q, [], True)"
  by (simp add: bind_def pop_def)

lemma step_bar_skip:
  "from_text_step (t, n, q, buf, True) CHR ''|'' = Inr (t, n, q, [], True)"
  by (simp add: bind_def)

lemma scan_subtree:
  assumes "canon n r" "p \<in> set (ids t)" "\<forall>i\<in>set (ids t). i < n"
    and "dl = CHR ''|'' \<or> dl = CHR '')''"
  shows "from_text_loop (Some t, n, q @ [Some p], [], e) (to_text_node r @ dl # rest) =
         from_text_loop (Some (add_child p r t), n + int (length (ids r)),
           (if dl = CHR '')'' then q else q @ [Some p]), [], True) rest"
  using assms
proof (induction r arbitrary: n t p q e dl rest)
  case (Node i tg d cs)
  from Node.prems(1) have i: "i = n" and wf: "wf_node tg"
    and dat: "ParsedNodeData_from_text tg = Inr d" and cl: "canon_list (n + 1) cs"
    by simp_all
  note ch = wf_node_chars [OF wf]
  have fresh: "n \<notin> set (ids t)"
    using Node.prems(3) by auto
  let ?leaf = "Node n tg d []"
  let ?t1 = "add_child p ?leaf t"
  have fl: "flush (Some t) n (q @ [Some p]) tg = Inr (Some ?t1)"
    using dat Node.prems(2) fresh by (rule flush_child)
  show ?case
  proof (cases "cs = []")
    case True
    have "from_text_loop (Some t, n, q @ [Some p], [], e) (tg @ dl # rest) =
          from_text_loop (Some t, n, q @ [Some p], tg, False) (dl # rest)"
      using scan_label [of tg "Some t" n "q @ [Some p]" "[]" e "dl # rest"] ch by simp
    also have "\<dots> = from_text_loop (Some ?t1, n + 1,
           (if dl = CHR '')'' then q else q @ [Some p]), [], True) rest"
      using Node.prems(4) fl
      by (auto simp: step_close_flush step_bar_flush bind_def simp del: from_text_step.simps)
    finally show ?thesis
      using True i to_text_node_canon [OF Node.prems(1)] by simp
  next
    case False
    let ?kids = "join ''|'' (map to_text_node cs)"
    have "from_text_loop (Some t, n, q @ [Some p], [], e)
            (tg @ CHR ''('' # (?kids @ CHR '')'' # dl # rest)) =
          from_text_loop (Some t, n, q @ [Some p], tg, False)
            (CHR ''('' # (?kids @ CHR '')'' # dl # rest))"
      using scan_label [of tg "Some t" n "q @ [Some p]" "[]" e] ch by simp
    also have "\<dots> = from_text_loop (Some ?t1, n + 1, (q @ [Some p]) @ [Some n], [], False)
            (?kids @ CHR '')'' # dl # rest)"
      using fl by (simp add: step_open bind_def del: from_text_step.simps)
    also have "\<dots> = from_text_loop (Some (foldl (\<lambda>u c. add_child n c u) ?t1 cs),
           (n + 1) + int (length (concat (map ids cs))), q @ [Some p], [], True) (dl # rest)"
    proof (rule scan_children [OF False _ cl])
      show "n \<in> set (ids ?t1)"
        using ids_add_child [OF Node.prems(2), of ?leaf] by simp
      show "\<forall>i\<in>set (ids ?t1). i < n + 1"
        using ids_add_child [OF Node.prems(2), of ?leaf] Node.prems(3) by fastforce
    next
      fix c m u e' dl' rest'
      assume "c \<in> set cs" "canon m c" "n \<in> set (ids u)" "\<forall>i\<in>set (ids u). i < m"
        "dl' = CHR ''|'' \<or> dl' = CHR '')''"
      then show "from_text_loop (Some u, m, (q @ [Some p]) @ [Some n], [], e')
                   (to_text_node c @ dl' # rest') =
                 from_text_loop (Some (add_child n c u), m + int (length (ids c)),
                   (if dl' = CHR '')'' then q @ [Some p] else (q @ [Some p]) @ [Some n]), [], True) rest'"
        by (rule Node.IH)
    qed
    also have "foldl (\<lambda>u c. add_child n c u) ?t1 cs = add_child p (Node n tg d cs) t"
      using add_children_node [OF fresh, of p tg d "[]" cs] by simp
    also have "from_text_loop (Some (add_child p (Node n tg d cs) t),
           (n + 1) + int (length (concat (map ids cs))), q @ [Some p], [], True) (dl # rest) =
         from_text_loop (Some (add_child p (Node n tg d cs) t),
           (n + 1) + int (length (concat (map ids cs))),
           (if dl = CHR '')'' then q else q @ [Some p]), [], True) rest"
      using Node.prems(4)
      by (auto simp: step_close_skip step_bar_skip simp del: from_text_step.simps)
    finally show ?thesis
      using False i to_text_node_canon [OF Node.prems(1)] by (simp add: add.assoc)
  qed
qed


lemma from_text_canon:
  assumes "canon 0 r" "children r \<noteq> []"
  shows "from_text (to_text_node r) False = Inr (Some r)"
proof -
  obtain i tg d cs where r: "r = Node i tg d cs"
    by (cases r)
  with assms have i: "i = 0" and wf: "wf_node tg"
    and dat: "ParsedNodeData_from_text tg = Inr d" and cl: "canon_list 1 cs" and ne: "cs \<noteq> []"
    by simp_all
  note ch = wf_node_chars [OF wf]
  let ?kids = "join ''|'' (map to_text_node cs)"
  let ?leaf = "Node 0 tg d []"
  have fl: "flush None 0 [None] tg = Inr (Some ?leaf)"
    using dat by (simp add: flush_def bind_def peek_def create_node_def tree_ids_def)
  have "from_text_loop (None, 0, [None], [], True) (tg @ CHR ''('' # (?kids @ '')'')) =
        from_text_loop (None, 0, [None], tg, False) (CHR ''('' # (?kids @ '')''))"
    using scan_label [of tg None 0 "[None]" "[]" True] ch by simp
  also have "\<dots> = from_text_loop (Some ?leaf, 1, [None] @ [Some 0], [], False) (?kids @ '')'')"
    using fl by (simp add: step_open bind_def del: from_text_step.simps)
  also have "\<dots> = from_text_loop (Some (foldl (\<lambda>u c. add_child 0 c u) ?leaf cs),
         1 + int (length (concat (map ids cs))), [None], [], True) []"
  proof (rule scan_children [OF ne _ cl, where pp = 0 and Q = "[None]" and u = ?leaf
          and e = False and rest = "[]"])
    fix c m u e dl rest
    assume "c \<in> set cs"
    assume "canon m c" "0 \<in> set (ids u)" "\<forall>i\<in>set (ids u). i < m"
      "dl = CHR ''|'' \<or> dl = CHR '')''"
    then show "from_text_loop (Some u, m, [None] @ [Some 0], [], e) (to_text_node c @ dl # rest) =
               from_text_loop (Some (add_child 0 c u), m + int (length (ids c)),
                 (if dl = CHR '')'' then [None] else [None] @ [Some 0]), [], True) rest"
      by (rule scan_subtree)
  qed simp_all
  also have "foldl (\<lambda>u c. add_child 0 c u) ?leaf cs = Node 0 tg d cs"
    using add_children_root [of 0 tg d "[]" cs] by simp
  finally have "from_text_loop (None, 0, [None], [], True) (to_text_node r) =
      Inr (Some r, 1 + int (length (concat (map ids cs))), [None], [], True)"
    using r i ne to_text_node_canon [of 0 i tg d cs] assms(1) by simp
  then show ?thesis
    by (simp add: from_text_def bind_def)
qed

lemma canon_list_build:
  assumes "\<forall>c\<in>set cs. \<forall>n. \<exists>r. canon n r \<and> to_text_node r = c"
  shows "\<exists>rs. canon_list m rs \<and> map to_text_node rs = cs"
  using assms
proof (induction cs arbitrary: m)
  case Nil
  then show ?case by simp
next
  case (Cons c cs)
  from Cons.prems have "\<exists>r. canon m r \<and> to_text_node r = c"
    by simp
  then obtain r where r: "canon m r" "to_text_node r = c"
    by blast
  have "\<exists>rs. canon_list (m + int (length (ids r))) rs \<and> map to_text_node rs = cs"
    by (rule Cons.IH) (use Cons.prems in simp)
  then obtain rs where "canon_list (m + int (length (ids r))) rs" "map to_text_node rs = cs"
    by blast
  with r have "canon_list m (r # rs) \<and> map to_text_node (r # rs) = c # cs"
    by simp
  then show ?case by (rule exI)
qed

lemma wf_tree_text_canon:
  "wf_tree_text s \<Longrightarrow>
   \<exists>r. canon n r \<and> to_text_node r = s \<and> (children r = [] \<longleftrightarrow> CHR ''('' \<notin> set s)"
proof (induction arbitrary: n rule: wf_tree_text.induct)
  case (leaf tg)
  then obtain d where d: "ParsedNodeData_from_text tg = Inr d"
    using wf_node_data by blast
  with leaf have c: "canon n (Node n tg d [])" by simp
  from to_text_node_canon [OF c] c wf_node_chars [OF leaf] show ?case
    by (intro exI [of _ "Node n tg d []"]) simp
next
  case (branch tg cs)
  then obtain d where d: "ParsedNodeData_from_text tg = Inr d"
    using wf_node_data by blast
  from branch(3) have "\<forall>c\<in>set cs. \<forall>n. \<exists>r. canon n r \<and> to_text_node r = c"
    by blast
  then obtain rs where rs: "canon_list (n + 1) rs" "map to_text_node rs = cs"
    using canon_list_build by blast
  with branch(2) have ne: "rs \<noteq> []" by auto
  from branch(1) d rs have c: "canon n (Node n tg d rs)" by simp
  from to_text_node_canon [OF c] ne rs(2) show ?case
    using c by (intro exI [of _ "Node n tg d rs"]) simp
qed

text \<open>
  C1, as stated, fails: a single node such as \<open>Na\<close> is a well-formed tree text of
  the grammar, but the scan creates nodes only at \<open>(\<close>, \<open>)\<close> and \<open>|\<close>, never
  at the end of the text: \<open>from_text\<close> returns the empty tree, on which \<open>to_text\<close>
  raises \<open>NodeIDAbsentError\<close>.
\<close>

theorem from_text_bare_node_counterexample:
  "wf_tree_text ''Na'' \<and> from_text ''Na'' False = Inr None \<and>
   to_text None None = Inl NodeIDAbsentError"
proof -
  have "wf_node ''Na''"
    by (simp add: wf_node_def field_ok_def)
  then have "wf_tree_text ''Na''"
    by (rule wf_tree_text.leaf)
  then show ?thesis
    by (simp add: from_text_def bind_def to_text_def get_node_def default_root_def root_def)
qed

text \<open>
  C1, amended: for every well-formed tree text \<open>s\<close> without empty segments whose root
  has a bracketed list of children (\<open>s\<close> contains a \<open>(\<close>),
  \<open>from_text(s, normalize=False)\<close> returns a tree and \<open>to_text()\<close> of that tree
  returns exactly \<open>s\<close>.
\<close>

theorem from_text_to_text:
  assumes "wf_tree_text s" and "CHR ''('' \<in> set s"
  shows "\<exists>t. from_text s False = Inr t \<and> to_text t None = Inr s"
proof -
  from wf_tree_text_canon [OF assms(1), of 0] assms(2)
  obtain r where r: "canon 0 r" "to_text_node r = s" "children r \<noteq> []"
    by blast
  then have "from_text s False = Inr (Some r)"
    using from_text_canon by blast
  moreover have "to_text (Some r) None = Inr s"
    using r(2) by (cases r) (simp add: to_text_def get_node_def default_root_def root_def bind_def)
  ultimately show ?thesis by blast
qed

theorem from_text_to_text_witness:
  "wf_tree_text example_text \<and> CHR ''('' \<in> set example_text \<and>
   (\<exists>t. from_text example_text False = Inr t \<and> to_text t None = Inr example_text)"
proof -
  have nodes: "wf_node ''S''" "wf_node (''Head:Nab:'' @ zhongwenzi)" "wf_node (''particle:Td:'' @ ye)"
    by (simp_all add: wf_node_def field_ok_def zhongwenzi_def ye_def)
  have "wf_tree_text (''Head:Nab:'' @ zhongwenzi)" "wf_tree_text (''particle:Td:'' @ ye)"
    by (rule wf_tree_text.leaf, rule nodes)+
  then have "\<forall>c\<in>set [''Head:Nab:'' @ zhongwenzi, ''particle:Td:'' @ ye]. wf_tree_text c"
    by simp
  with nodes(1) have "wf_tree_text (''S'' @ ''('' @
          join ''|'' [''Head:Nab:'' @ zhongwenzi, ''particle:Td:'' @ ye] @ '')'')"
    by (intro wf_tree_text.branch) simp_all
  then have wf: "wf_tree_text example_text"
    by (simp add: example_text_def)
  have br: "CHR ''('' \<in> set example_text"
    by (simp add: example_text_def)
  from wf br from_text_to_text [OF wf br] show ?thesis by simp
qed

subsection \<open>Looking a node up by its identifier\<close>

lemma first_some_None: "\<forall>x\<in>set xs. x = None \<Longrightarrow> first_some xs = None"
  by (induction xs rule: first_some.induct) auto

lemma find_node_absent: "i \<notin> set (ids t) \<Longrightarrow> find_node i t = None"
  by (induction t) (auto intro: first_some_None)

lemma first_some_find:
  assumes "distinct (concat (map ids cs))" "c \<in> set cs" "i \<in> set (ids c)"
    and "find_node i c = Some n"
  shows "first_some (map (find_node i) cs) = Some n"
  using assms
proof (induction cs)
  case Nil
  then show ?case by simp
next
  case (Cons x cs)
  show ?case
  proof (cases "x = c")
    case True
    with Cons.prems show ?thesis by simp
  next
    case False
    with Cons.prems have c: "c \<in> set cs" by simp
    with Cons.prems have "i \<notin> set (ids x)" by auto
    then have "find_node i x = None" by (rule find_node_absent)
    moreover have "first_some (map (find_node i) cs) = Some n"
      using Cons.IH Cons.prems c by simp
    ultimately show ?thesis by simp
  qed
qed

lemma find_node_subtree:
  "distinct (ids t) \<Longrightarrow> n \<in> set (subtrees t) \<Longrightarrow> find_node (ident n) t = Some n"
proof (induction t)
  case (Node j tg d cs)
  show ?case
  proof (cases "n = Node j tg d cs")
    case True
    then show ?thesis by simp
  next
    case False
    with Node.prems obtain c where c: "c \<in> set cs" "n \<in> set (subtrees c)" by auto
    from Node.prems(1) have dc: "distinct (concat (map ids cs))" and j: "j \<notin> set (concat (map ids cs))"
      by simp_all
    from dc c(1) have "distinct (ids c)"
      by (auto simp: distinct_concat_iff)
    with Node.IH c have f: "find_node (ident n) c = Some n" by blast
    have i: "ident n \<in> set (ids c)"
      using c(2) by (rule subtree_ident)
    with j c(1) have "ident n \<noteq> j" by auto
    moreover have "first_some (map (find_node (ident n)) cs) = Some n"
      using dc c(1) i f by (rule first_some_find)
    ultimately show ?thesis by simp
  qed
qed

lemma subtrees_trans:
  "r \<in> set (subtrees t) \<Longrightarrow> n \<in> set (subtrees r) \<Longrightarrow> n \<in> set (subtrees t)"
proof (induction t)
  case (Node j tg d cs)
  show ?case
  proof (cases "r = Node j tg d cs")
    case True
    with Node.prems show ?thesis by simp
  next
    case False
    with Node.prems obtain c where "c \<in> set cs" "r \<in> set (subtrees c)" by auto
    with Node.IH Node.prems(2) show ?thesis by auto
  qed
qed

lemma get_node_child:
  assumes "distinct (tree_ids t)" "get_node t nid = Inr r" "c \<in> set (children r)"
  shows "get_node t (Some (ident c)) = Inr c"
proof -
  from assms(2) obtain root i where t: "t = Some root" and f: "find_node i root = Some r"
    by (auto simp: get_node_def split: option.splits)
  from find_node_subtrees [OF f] have "r \<in> set (subtrees root)" by simp
  moreover have "c \<in> set (subtrees r)"
    using assms(3) self_subtree by (rule child_subtree)
  ultimately have "c \<in> set (subtrees root)"
    by (rule subtrees_trans)
  with assms(1) t have "find_node (ident c) root = Some c"
    by (simp add: tree_ids_def find_node_subtree)
  with t show ?thesis by (simp add: get_node_def)
qed


text \<open>
  The recursion of \<open>get_heads\<close> as the source writes it, through the identifier of
  the head node.
\<close>

lemma get_heads_by_identifier:
  assumes "distinct (tree_ids t)" "get_node t (default_root t root_id) = Inr r"
  shows "get_heads t root_id semantic deep =
     bind (head_nodes_of r semantic) (\<lambda>head_nodes.
       yield_from (map (\<lambda>node. if deep \<and> children node \<noteq> []
                                then get_heads t (Some (ident node)) semantic True
                                else Inr [node]) head_nodes))"
proof -
  let ?F = "\<lambda>node. if deep \<and> children node \<noteq> []
                      then get_heads_node node semantic True else Inr [node]"
  let ?G = "\<lambda>node. if deep \<and> children node \<noteq> []
                      then get_heads t (Some (ident node)) semantic True else Inr [node]"
  obtain hn where hn: "head_nodes_of r semantic = Inr hn"
    using head_nodes_of_total by blast
  have meq: "map ?F hn = map ?G hn"
  proof (intro map_cong refl)
    fix node assume n: "node \<in> set hn"
    show "?F node = ?G node"
    proof (cases "deep \<and> children node \<noteq> []")
      case True
      then have "node \<in> set (children r)"
        using head_nodes_of_children [OF hn n] by simp
      with assms have "get_node t (Some (ident node)) = Inr node"
        by (rule get_node_child)
      then show ?thesis
        by (simp add: get_heads_def children_node_eq default_root_def bind_def)
    next
      case False
      then show ?thesis by auto
    qed
  qed
  have "get_heads t root_id semantic deep = get_heads_node r semantic deep"
    using assms(2) by (simp add: get_heads_def children_node_eq bind_def)
  also have "\<dots> = yield_from (map ?F hn)"
    by (subst get_heads_node.simps) (simp add: hn bind_def)
  also have "\<dots> = yield_from (map ?G hn)"
    by (simp only: meq)
  also have "\<dots> = bind (head_nodes_of r semantic) (\<lambda>head_nodes. yield_from (map ?G head_nodes))"
    by (simp add: hn bind_def)
  finally show ?thesis .
qed

end
